theory Spec2Isabelle
  imports Complex_Main
begin

section \<open>Tensors: a shape and the elements in row-major order\<close>

text \<open>A tensor is its shape and its elements in row-major order, as a contiguous tensor of
  the library is. The elements of the layer's tensors are reals: the arithmetic of the layer is
  followed exactly, without the rounding of a floating-point type. \<open>get\<close> reads the element at
  a multi-index, and \<open>tabulate\<close> builds the tensor of a shape whose element at every index is
  given by a function.\<close>

datatype 'a tensor = Tensor (shape: "nat list") (elems: "'a list")

fun numel :: "nat list \<Rightarrow> nat" where
  "numel [] = 1"
| "numel (n # ns) = n * numel ns"

fun valid_index :: "nat list \<Rightarrow> nat list \<Rightarrow> bool" where
  "valid_index [] [] = True"
| "valid_index (n # ns) (i # is) = (i < n \<and> valid_index ns is)"
| "valid_index _ _ = False"

fun offset :: "nat list \<Rightarrow> nat list \<Rightarrow> nat" where
  "offset (n # ns) (i # is) = i * numel ns + offset ns is"
| "offset _ _ = 0"

fun all_indices :: "nat list \<Rightarrow> nat list list" where
  "all_indices [] = [[]]"
| "all_indices (n # ns) = concat (map (\<lambda>i. map ((#) i) (all_indices ns)) [0..<n])"

definition get :: "'a tensor \<Rightarrow> nat list \<Rightarrow> 'a" where
  "get t idx = elems t ! offset (shape t) idx"

definition tabulate :: "nat list \<Rightarrow> (nat list \<Rightarrow> 'a) \<Rightarrow> 'a tensor" where
  "tabulate sh f = Tensor sh (map f (all_indices sh))"

definition well_shaped :: "'a tensor \<Rightarrow> bool" where
  "well_shaped t = (length (elems t) = numel (shape t))"

text \<open>\<open>t[..., e]\<close>, \<open>t[e]\<close>, the assignment \<open>t[..., e] = q\<close> and \<open>t.fill_(v)\<close>.\<close>

definition select_last :: "'a tensor \<Rightarrow> nat \<Rightarrow> 'a tensor" where
  "select_last t e = tabulate (butlast (shape t)) (\<lambda>idx. get t (idx @ [e]))"


definition set_last :: "'a tensor \<Rightarrow> nat \<Rightarrow> 'a tensor \<Rightarrow> 'a tensor" where
  "set_last t e q =
     tabulate (shape t) (\<lambda>idx. if last idx = e then get q (butlast idx) else get t idx)"

definition fill_value :: "'a tensor \<Rightarrow> 'a \<Rightarrow> 'a tensor" where
  "fill_value t v = Tensor (shape t) (replicate (numel (shape t)) v)"

section \<open>The tensor library operations the layer calls\<close>

text \<open>The exceptions the library and the interpreter raise in this code.\<close>

datatype error = RuntimeError | ZeroDivisionError | ValueError | IndexError | TypeError

text \<open>Two sizes carrying the same subscript broadcast when they agree or one of them is 1.\<close>

definition bdim :: "nat \<Rightarrow> nat \<Rightarrow> nat option" where
  "bdim a b = (if a = b then Some a else if a = 1 then Some b else if b = 1 then Some a else None)"

definition bix :: "nat \<Rightarrow> nat \<Rightarrow> nat" where
  "bix n i = (if n = 1 then 0 else i)"

fun broadcast_rev :: "nat list \<Rightarrow> nat list \<Rightarrow> nat list option" where
  "broadcast_rev [] ys = Some ys"
| "broadcast_rev (x # xs) [] = Some (x # xs)"
| "broadcast_rev (x # xs) (y # ys) =
     (case bdim x y of None \<Rightarrow> None | Some d \<Rightarrow> map_option ((#) d) (broadcast_rev xs ys))"

definition broadcast_shapes :: "nat list \<Rightarrow> nat list \<Rightarrow> nat list option" where
  "broadcast_shapes a b = map_option rev (broadcast_rev (rev a) (rev b))"

definition bindex :: "nat list \<Rightarrow> nat list \<Rightarrow> nat list" where
  "bindex sh idx = map2 bix sh (drop (length idx - length sh) idx)"

text \<open>\<open>a + b\<close> on tensors, with the shapes aligned at the right.\<close>

definition tadd :: "real tensor \<Rightarrow> real tensor \<Rightarrow> error + real tensor" where
  "tadd a b =
     (case broadcast_shapes (shape a) (shape b) of
        None \<Rightarrow> Inl RuntimeError
      | Some sh \<Rightarrow>
          Inr (tabulate sh (\<lambda>idx. get a (bindex (shape a) idx) + get b (bindex (shape b) idx))))"

text \<open>\<open>torch.einsum('...j,jkb->...kb', x, w)\<close>\<close>

definition einsum_dj_jkb :: "real tensor \<Rightarrow> real tensor \<Rightarrow> error + real tensor" where
  "einsum_dj_jkb x w =
     (case shape w of
        [J, K, B] \<Rightarrow>
          (if shape x = [] then Inl RuntimeError
           else
             let lead = butlast (shape x); Jx = last (shape x) in
             (case bdim Jx J of
                None \<Rightarrow> Inl RuntimeError
              | Some Jc \<Rightarrow>
                  Inr (tabulate (lead @ [K, B]) (\<lambda>idx.
                    let n = length lead; pre = take n idx; k = idx ! n; b = idx ! Suc n in
                    (\<Sum>j\<leftarrow>[0..<Jc]. get x (pre @ [bix Jx j]) * get w [bix J j, k, b])))))
      | _ \<Rightarrow> Inl RuntimeError)"

text \<open>\<open>torch.einsum('b...j,jkb->...kb', x, w)\<close>\<close>

definition einsum_bdj_jkb :: "real tensor \<Rightarrow> real tensor \<Rightarrow> error + real tensor" where
  "einsum_bdj_jkb x w =
     (case shape w of
        [J, K, B] \<Rightarrow>
          (if length (shape x) < 2 then Inl RuntimeError
           else
             let Bx = hd (shape x); mid = butlast (tl (shape x)); Jx = last (shape x) in
             (case bdim Jx J of
                None \<Rightarrow> Inl RuntimeError
              | Some Jc \<Rightarrow>
                  (case bdim Bx B of
                     None \<Rightarrow> Inl RuntimeError
                   | Some Bc \<Rightarrow>
                       Inr (tabulate (mid @ [K, Bc]) (\<lambda>idx.
                         let n = length mid; pre = take n idx; k = idx ! n; b = idx ! Suc n in
                         (\<Sum>j\<leftarrow>[0..<Jc].
                            get x (bix Bx b # pre @ [bix Jx j]) * get w [bix J j, k, bix B b]))))))
      | _ \<Rightarrow> Inl RuntimeError)"

text \<open>\<open>torch.einsum('...b->b...', r)\<close>\<close>

definition einsum_db_bd :: "real tensor \<Rightarrow> error + real tensor" where
  "einsum_db_bd r =
     (if shape r = [] then Inl RuntimeError
      else Inr (tabulate (last (shape r) # butlast (shape r)) (\<lambda>idx. get r (tl idx @ [hd idx]))))"

text \<open>Rounding to a binary floating-point format with \<open>p\<close> significant bits, to nearest with
  ties to even, in the normal range of the format (no overflow, no subnormal numbers). A Python
  float is a double; the elements of a tensor have the type the layer was given, float32 unless
  the caller chose another, and the conversion to that type is a parameter \<open>cast\<close> of the
  operations that store rounded values.\<close>

definition round_even :: "real \<Rightarrow> int" where
  "round_even y =
     (let f = \<lfloor>y\<rfloor>; d = y - of_int f
      in if d < 1 / 2 then f else if 1 / 2 < d then f + 1 else if even f then f else f + 1)"

definition float_round :: "nat \<Rightarrow> real \<Rightarrow> real" where
  "float_round p x =
     (if x = 0 then 0
      else let e = \<lfloor>log 2 \<bar>x\<bar>\<rfloor>; u = 2 powr of_int (e - int p + 1)
           in of_int (round_even (x / u)) * u)"

definition float64 :: "real \<Rightarrow> real" where
  "float64 = float_round 53"

definition float32 :: "real \<Rightarrow> real" where
  "float32 = float_round 24"

text \<open>What the theorems ask of a conversion: it is monotone, keeps 0 and keeps the values it
  produces.\<close>

definition rounding :: "(real \<Rightarrow> real) \<Rightarrow> bool" where
  "rounding r = (mono r \<and> r 0 = 0 \<and> (\<forall>x. r (r x) = r x))"

text \<open>A size argument of the constructor is any Python number. \<open>torch.empty\<close> and
  \<open>torch.zeros\<close> refuse a float among the sizes (TypeError, raised while the arguments are
  parsed), then a negative size, then a tensor the allocator cannot hold: \<open>mem\<close> is the number
  of elements the allocator can still grant. The contents of an empty tensor are whatever the
  memory held, \<open>junk\<close>.\<close>

datatype pyarg = IntArg int | FloatArg real

fun is_float :: "pyarg \<Rightarrow> bool" where
  "is_float (IntArg n) = False"
| "is_float (FloatArg r) = True"

fun the_int :: "pyarg \<Rightarrow> int" where
  "the_int (IntArg n) = n"
| "the_int (FloatArg r) = \<lfloor>r\<rfloor>"

definition alloc :: "nat \<Rightarrow> pyarg list \<Rightarrow> (nat \<Rightarrow> real) \<Rightarrow> error + real tensor" where
  "alloc mem dims contents =
     (if \<exists>d \<in> set dims. is_float d then Inl TypeError
      else if \<exists>d \<in> set dims. the_int d < 0 then Inl RuntimeError
      else
        let sh = map (\<lambda>d. nat (the_int d)) dims
        in if mem < numel sh then Inl RuntimeError
           else Inr (Tensor sh (map contents [0..<numel sh])))"

definition torch_zeros :: "nat \<Rightarrow> pyarg list \<Rightarrow> error + real tensor" where
  "torch_zeros mem dims = alloc mem dims (\<lambda>i. 0)"

definition torch_empty :: "nat \<Rightarrow> (nat \<Rightarrow> real) \<Rightarrow> pyarg list \<Rightarrow> error + real tensor" where
  "torch_empty mem junk dims = alloc mem dims junk"

text \<open>The random generator is the stream of its draws from the unit interval. \<open>uniform_fill\<close>
  converts the two bounds to the element type and overwrites every element with the sample
  \<open>lo + u * (hi - lo)\<close> for the next draw \<open>u\<close>, converted to the element type.\<close>

type_synonym rng = "nat \<Rightarrow> real"

definition unit_draws :: "rng \<Rightarrow> bool" where
  "unit_draws g = (\<forall>i. 0 \<le> g i \<and> g i \<le> 1)"

definition uniform_fill ::
  "(real \<Rightarrow> real) \<Rightarrow> real tensor \<Rightarrow> real \<Rightarrow> real \<Rightarrow> rng \<Rightarrow> real tensor \<times> rng" where
  "uniform_fill cast t lo hi g =
     (let n = numel (shape t); lo' = cast lo; hi' = cast hi in
      (Tensor (shape t) (map (\<lambda>i. cast (lo' + g i * (hi' - lo'))) [0..<n]), \<lambda>i. g (i + n)))"

section \<open>EnsembleLinear\<close>

record ensemble_linear =
  in_features :: int
  out_features :: int
  ensemble_size :: int
  share_input :: bool
  add_bias :: bool
  weight :: "real tensor"
  bias :: "real tensor"

text \<open>\<open>std = 1.0 / math.sqrt(self.in_features)\<close> is computed in Python floats: the square
  root refuses a negative number and the division refuses a zero divisor.\<close>

definition reset_parameters ::
  "(real \<Rightarrow> real) \<Rightarrow> ensemble_linear \<Rightarrow> rng \<Rightarrow> error + ensemble_linear \<times> rng" where
  "reset_parameters cast l g =
     (let a = float64 (real_of_int (in_features l)) in
      if a < 0 then Inl ValueError
      else
        let s = float64 (sqrt a) in
        if s = 0 then Inl ZeroDivisionError
        else
          let std = float64 (1 / s);
              (w, g1) = uniform_fill cast (weight l) (- std) std g
          in if add_bias l
             then let (b, g2) = uniform_fill cast (bias l) (- std) std g1
                  in Inr (l\<lparr>weight := w, bias := b\<rparr>, g2)
             else Inr (l\<lparr>weight := w\<rparr>, g1))"

text \<open>The constructor: the two allocations, the second from what the first left, then
  \<open>reset_parameters\<close>.\<close>

definition init ::
  "nat \<Rightarrow> (nat \<Rightarrow> real) \<Rightarrow> (real \<Rightarrow> real) \<Rightarrow> pyarg \<Rightarrow> pyarg \<Rightarrow> pyarg \<Rightarrow> bool \<Rightarrow> bool \<Rightarrow> rng
     \<Rightarrow> error + ensemble_linear \<times> rng" where
  "init mem junk cast n_in n_out esize share b g =
     (case torch_empty mem junk [n_in, n_out, esize] of
        Inl e \<Rightarrow> Inl e
      | Inr w \<Rightarrow>
          (case (if b then torch_empty (mem - numel (shape w)) junk [n_out, esize]
                 else torch_zeros (mem - numel (shape w)) [n_out, esize]) of
             Inl e \<Rightarrow> Inl e
           | Inr bs \<Rightarrow>
               reset_parameters cast
                 \<lparr>in_features = the_int n_in, out_features = the_int n_out,
                  ensemble_size = the_int esize,
                  share_input = share, add_bias = b, weight = w, bias = bs\<rparr> g))"

definition forward :: "ensemble_linear \<Rightarrow> real tensor \<Rightarrow> error + real tensor" where
  "forward l x =
     (case (if share_input l then einsum_dj_jkb x (weight l) else einsum_bdj_jkb x (weight l)) of
        Inl e \<Rightarrow> Inl e
      | Inr r \<Rightarrow> (case tadd r (bias l) of Inl e \<Rightarrow> Inl e | Inr res \<Rightarrow> einsum_db_bd res))"

text \<open>The shape invariant of a constructed layer: the constructor allocates the two tensors
  with these shapes and nothing resizes them.\<close>

definition layer_ok :: "ensemble_linear \<Rightarrow> bool" where
  "layer_ok l =
     (0 \<le> in_features l \<and> 0 \<le> out_features l \<and> 0 \<le> ensemble_size l \<and>
      shape (weight l) = [nat (in_features l), nat (out_features l), nat (ensemble_size l)] \<and>
      shape (bias l) = [nat (out_features l), nat (ensemble_size l)] \<and>
      well_shaped (weight l) \<and> well_shaped (bias l))"


text \<open>The concrete scenario of the specification.\<close>

definition scenario_layer :: ensemble_linear where
  "scenario_layer =
     \<lparr>in_features = 3, out_features = 1, ensemble_size = 2, share_input = True, add_bias = True,
      weight = Tensor [3, 1, 2] [1, 0, 0, 1, 0, 0], bias = Tensor [1, 2] [0, 0]\<rparr>"

definition scenario_input :: "real tensor" where
  "scenario_input = Tensor [1, 3] [1, 2, 3]"

definition half_rng :: rng where
  "half_rng = (\<lambda>i. 1 / 2)"

definition own_layer :: ensemble_linear where
  "own_layer =
     \<lparr>in_features = 2, out_features = 1, ensemble_size = 2, share_input = False, add_bias = True,
      weight = Tensor [2, 1, 2] [1, 2, 3, 4], bias = Tensor [1, 2] [10, 20]\<rparr>"



definition scenario_vector :: "real tensor" where
  "scenario_vector = Tensor [3] [1, 2, 3]"

definition scenario_pair :: "real tensor" where
  "scenario_pair = Tensor [2, 3] [1, 2, 3, 4, 5, 6]"

definition three_quarter_rng :: rng where
  "three_quarter_rng = (\<lambda>i. 3 / 4)"

definition thin_input :: "real tensor" where
  "thin_input = Tensor [2, 1] [5, 7]"

definition single_slice_input :: "real tensor" where
  "single_slice_input = Tensor [1, 1, 2] [1, 1]"

definition short_input :: "real tensor" where
  "short_input = Tensor [1, 2] [1, 2]"

definition three_slice_input :: "real tensor" where
  "three_slice_input = Tensor [3, 1, 2] [1, 2, 3, 4, 5, 6]"

section \<open>Calls on a layer\<close>

text \<open>Method calls on a layer, as transitions of the layer and the generator state. A call that
  raises leaves the state as it was: \<open>reset_parameters\<close> computes \<open>std\<close> before it writes.\<close>

datatype call = Reset | Forward "real tensor"

definition call_forward ::
  "real tensor \<Rightarrow> ensemble_linear \<times> rng \<Rightarrow> (error + real tensor) \<times> (ensemble_linear \<times> rng)" where
  "call_forward x s = (forward (fst s) x, s)"

definition call_reset ::
  "(real \<Rightarrow> real) \<Rightarrow> ensemble_linear \<times> rng \<Rightarrow> (error + unit) \<times> (ensemble_linear \<times> rng)" where
  "call_reset cast s =
     (case reset_parameters cast (fst s) (snd s) of
        Inl e \<Rightarrow> (Inl e, s)
      | Inr s' \<Rightarrow> (Inr (), s'))"

fun step :: "(real \<Rightarrow> real) \<Rightarrow> call \<Rightarrow> ensemble_linear \<times> rng \<Rightarrow> ensemble_linear \<times> rng" where
  "step cast Reset s = snd (call_reset cast s)"
| "step cast (Forward x) s = snd (call_forward x s)"

definition run ::
  "(real \<Rightarrow> real) \<Rightarrow> call list \<Rightarrow> ensemble_linear \<times> rng \<Rightarrow> ensemble_linear \<times> rng" where
  "run cast cs s = fold (step cast) cs s"

definition relabelled_layer :: ensemble_linear where
  "relabelled_layer = scenario_layer\<lparr>in_features := 7, out_features := 8, ensemble_size := 9,
     add_bias := False\<rparr>"

section \<open>The weight-initialisation dispatcher\<close>

text \<open>\<open>nn.init.orthogonal_\<close> is a library routine; the dispatcher is modelled over any such
  routine, given as a function from the tensor to overwrite, the gain and the generator state
  to the new contents and the generator state.\<close>

type_synonym orthogonal = "real tensor \<Rightarrow> real \<Rightarrow> rng \<Rightarrow> real tensor \<times> rng"

datatype module =
    LinearModule "real tensor" "real tensor option"
  | EnsembleModule ensemble_linear
  | OtherModule

text \<open>The loop \<open>for i in range(m.ensemble_size)\<close>: \<open>m.weight.data[..., i]\<close> is a view of the
  weight, so the routine's result is written into slice \<open>i\<close>; indexing past the last axis
  raises.\<close>

fun orthogonal_slices ::
  "orthogonal \<Rightarrow> real \<Rightarrow> nat list \<Rightarrow> real tensor \<Rightarrow> rng \<Rightarrow> error + real tensor \<times> rng" where
  "orthogonal_slices orth gain [] w g = Inr (w, g)"
| "orthogonal_slices orth gain (i # is) w g =
     (if shape w = [] \<or> last (shape w) \<le> i then Inl IndexError
      else let (q, g') = orth (select_last w i) gain g
           in orthogonal_slices orth gain is (set_last w i q) g')"

definition weight_init :: "orthogonal \<Rightarrow> module \<Rightarrow> real \<Rightarrow> rng \<Rightarrow> error + module \<times> rng" where
  "weight_init orth m gain g =
     (case m of
        LinearModule w b \<Rightarrow>
          (let (w', g') = orth w gain g
           in Inr (LinearModule w' (map_option (\<lambda>t. fill_value t 0) b), g'))
      | EnsembleModule l \<Rightarrow>
          (case orthogonal_slices orth gain [0..<nat (ensemble_size l)] (weight l) g of
             Inl e \<Rightarrow> Inl e
           | Inr (w', g') \<Rightarrow>
               Inr (EnsembleModule (l\<lparr>weight := w', bias := fill_value (bias l) 0\<rparr>), g'))
      | OtherModule \<Rightarrow> Inr (OtherModule, g))"

text \<open>An instance of the routine for 1 x 1 slices, where its result is known: the orthogonal
  factor of a 1 x 1 matrix is its sign, so the slice becomes the sign of the one normal draw
  (negative for the lower half of the generator's range) times the gain. Other shapes are
  outside this instance and left as they are.\<close>

definition orthogonal_1x1 :: orthogonal where
  "orthogonal_1x1 t gain g =
     (if shape t = [1, 1]
      then (Tensor [1, 1] [gain * (if g 0 < 1 / 2 then - 1 else 1)], \<lambda>i. g (Suc i))
      else (t, g))"

definition unit_layer :: ensemble_linear where
  "unit_layer =
     \<lparr>in_features = 1, out_features = 1, ensemble_size = 1, share_input = True, add_bias = True,
      weight = Tensor [1, 1, 1] [3 / 10], bias = Tensor [1, 1] [7 / 10]\<rparr>"

definition initialised :: "error + module \<times> rng \<Rightarrow> ensemble_linear option" where
  "initialised r = (case r of Inr (EnsembleModule l, g) \<Rightarrow> Some l | _ \<Rightarrow> None)"

text \<open>The value of \<open>std\<close> that \<open>reset_parameters\<close> computes for a layer of \<open>n\<close> input features.\<close>

definition std_of :: "int \<Rightarrow> real" where
  "std_of n = float64 (1 / float64 (sqrt (float64 (real_of_int n))))"


definition stale_memory :: "nat \<Rightarrow> real" where
  "stale_memory = (\<lambda>i. 1000)"

definition zero_rng :: rng where
  "zero_rng = (\<lambda>i. 0)"

definition nine_layer :: ensemble_linear where
  "nine_layer =
     \<lparr>in_features = 9, out_features = 1, ensemble_size = 1, share_input = True, add_bias = True,
      weight = Tensor [9, 1, 1] [0, 0, 0, 0, 0, 0, 0, 0, 0], bias = Tensor [1, 1] [0]\<rparr>"

text \<open>The forward pass in the arithmetic of the element type: every product, every partial sum
  of the contraction and the sum with the bias is converted to the element type. The terms of a
  contraction are accumulated in index order; the library does not fix the order, and nothing
  proved here depends on it.\<close>

definition dot_fl :: "(real \<Rightarrow> real) \<Rightarrow> (nat \<Rightarrow> real) \<Rightarrow> nat \<Rightarrow> real" where
  "dot_fl cast f n = foldl (\<lambda>acc j. cast (acc + cast (f j))) 0 [0..<n]"

definition tadd_fl :: "(real \<Rightarrow> real) \<Rightarrow> real tensor \<Rightarrow> real tensor \<Rightarrow> error + real tensor" where
  "tadd_fl cast a b =
     (case broadcast_shapes (shape a) (shape b) of
        None \<Rightarrow> Inl RuntimeError
      | Some sh \<Rightarrow>
          Inr (tabulate sh (\<lambda>idx.
            cast (get a (bindex (shape a) idx) + get b (bindex (shape b) idx)))))"

definition einsum_dj_jkb_fl ::
  "(real \<Rightarrow> real) \<Rightarrow> real tensor \<Rightarrow> real tensor \<Rightarrow> error + real tensor" where
  "einsum_dj_jkb_fl cast x w =
     (case shape w of
        [J, K, B] \<Rightarrow>
          (if shape x = [] then Inl RuntimeError
           else
             let lead = butlast (shape x); Jx = last (shape x) in
             (case bdim Jx J of
                None \<Rightarrow> Inl RuntimeError
              | Some Jc \<Rightarrow>
                  Inr (tabulate (lead @ [K, B]) (\<lambda>idx.
                    let n = length lead; pre = take n idx; k = idx ! n; b = idx ! Suc n in
                    dot_fl cast (\<lambda>j. get x (pre @ [bix Jx j]) * get w [bix J j, k, b]) Jc))))
      | _ \<Rightarrow> Inl RuntimeError)"

definition einsum_bdj_jkb_fl ::
  "(real \<Rightarrow> real) \<Rightarrow> real tensor \<Rightarrow> real tensor \<Rightarrow> error + real tensor" where
  "einsum_bdj_jkb_fl cast x w =
     (case shape w of
        [J, K, B] \<Rightarrow>
          (if length (shape x) < 2 then Inl RuntimeError
           else
             let Bx = hd (shape x); mid = butlast (tl (shape x)); Jx = last (shape x) in
             (case bdim Jx J of
                None \<Rightarrow> Inl RuntimeError
              | Some Jc \<Rightarrow>
                  (case bdim Bx B of
                     None \<Rightarrow> Inl RuntimeError
                   | Some Bc \<Rightarrow>
                       Inr (tabulate (mid @ [K, Bc]) (\<lambda>idx.
                         let n = length mid; pre = take n idx; k = idx ! n; b = idx ! Suc n in
                         dot_fl cast
                           (\<lambda>j. get x (bix Bx b # pre @ [bix Jx j]) * get w [bix J j, k, bix B b])
                           Jc)))))
      | _ \<Rightarrow> Inl RuntimeError)"

definition forward_fl ::
  "(real \<Rightarrow> real) \<Rightarrow> ensemble_linear \<Rightarrow> real tensor \<Rightarrow> error + real tensor" where
  "forward_fl cast l x =
     (case (if share_input l then einsum_dj_jkb_fl cast x (weight l)
            else einsum_bdj_jkb_fl cast x (weight l)) of
        Inl e \<Rightarrow> Inl e
      | Inr r \<Rightarrow> (case tadd_fl cast r (bias l) of Inl e \<Rightarrow> Inl e | Inr res \<Rightarrow> einsum_db_bd res))"

text \<open>The value of the contraction for member \<open>e\<close>, output feature \<open>k\<close> and the input row at
  \<open>pre\<close>.\<close>

definition contraction_fl ::
  "(real \<Rightarrow> real) \<Rightarrow> ensemble_linear \<Rightarrow> real tensor \<Rightarrow> nat list \<Rightarrow> nat \<Rightarrow> nat \<Rightarrow> real" where
  "contraction_fl cast l x pre k e =
     dot_fl cast (\<lambda>j. get x (pre @ [j]) * get (weight l) [j, k, e]) (nat (in_features l))"

definition biased_copy :: "ensemble_linear \<Rightarrow> ensemble_linear" where
  "biased_copy l = l\<lparr>add_bias := True, bias := Tensor [1, 1] [5]\<rparr>"

definition doubling_input :: "real tensor" where
  "doubling_input = Tensor [1] [2]"

definition plain_layer :: ensemble_linear where
  "plain_layer =
     \<lparr>in_features = 1, out_features = 1, ensemble_size = 1, share_input = True, add_bias = False,
      weight = Tensor [1, 1, 1] [1], bias = Tensor [1, 1] [0]\<rparr>"

definition large_bias_layer :: ensemble_linear where
  "large_bias_layer = plain_layer\<lparr>add_bias := True, bias := Tensor [1, 1] [33554432]\<rparr>"

definition unit_input :: "real tensor" where
  "unit_input = Tensor [1] [1]"

section \<open>Facts about tensors\<close>

lemma length_all_indices: "length (all_indices sh) = numel sh"
proof (induction sh)
  case Nil
  show ?case by simp
next
  case (Cons n ns)
  have "length (concat (map (\<lambda>i. map ((#) i) (all_indices ns)) [0..<n])) = n * numel ns"
    by (induction n) (simp_all add: Cons.IH)
  then show ?case by simp
qed

lemma concat_blocks_nth:
  assumes "\<And>i. i < n \<Longrightarrow> length (f i) = m" and "i < n" and "r < m"
  shows "concat (map f [0..<n]) ! (i * m + r) = f i ! r"
  using assms
proof (induction n)
  case 0
  then show ?case by simp
next
  case (Suc n)
  have len: "length (concat (map f [0..<n])) = n * m"
    using Suc.prems(1) by (induction n) simp_all
  show ?case
  proof (cases "i < n")
    case True
    have "i * m + r < n * m"
    proof -
      have "i * m + r < i * m + m" using Suc.prems(3) by simp
      also have "\<dots> = Suc i * m" by simp
      also have "\<dots> \<le> n * m" using True by (intro mult_le_mono1) simp
      finally show ?thesis .
    qed
    then show ?thesis using Suc.IH[OF _ True Suc.prems(3)] Suc.prems(1) len
      by (simp add: nth_append)
  next
    case False
    then have "i = n" using Suc.prems(2) by simp
    then show ?thesis using len by (simp add: nth_append)
  qed
qed

lemma offset_less: "valid_index sh idx \<Longrightarrow> offset sh idx < numel sh"
proof (induction sh idx rule: valid_index.induct)
  case (2 n ns i "is")
  then have "i * numel ns + offset ns is < i * numel ns + numel ns" by simp
  also have "\<dots> = Suc i * numel ns" by simp
  also have "\<dots> \<le> n * numel ns" using 2 by (intro mult_le_mono1) simp
  finally show ?case by simp
qed simp_all

lemma all_indices_nth: "valid_index sh idx \<Longrightarrow> all_indices sh ! offset sh idx = idx"
proof (induction sh idx rule: valid_index.induct)
  case (2 n ns i "is")
  then have v: "valid_index ns is" and i: "i < n" by simp_all
  have r: "offset ns is < numel ns" using v by (rule offset_less)
  have "concat (map (\<lambda>i. map ((#) i) (all_indices ns)) [0..<n]) ! (i * numel ns + offset ns is)
        = map ((#) i) (all_indices ns) ! offset ns is"
    by (rule concat_blocks_nth) (simp_all add: length_all_indices i r)
  then show ?case using 2 r by (simp add: length_all_indices)
qed simp_all

lemma set_all_indices: "set (all_indices sh) = {idx. valid_index sh idx}"
proof (induction sh)
  case Nil
  show ?case
  proof -
    have "\<And>idx. valid_index [] idx = (idx = [])" by (case_tac idx) simp_all
    then show ?thesis by auto
  qed
next
  case (Cons n ns)
  have "\<And>idx. valid_index (n # ns) idx = (\<exists>i is. idx = i # is \<and> i < n \<and> valid_index ns is)"
    by (case_tac idx) simp_all
  then show ?case using Cons by auto
qed

lemma shape_tabulate [simp]: "shape (tabulate sh f) = sh"
  by (simp add: tabulate_def)

lemma well_shaped_tabulate [simp]: "well_shaped (tabulate sh f)"
  by (simp add: tabulate_def well_shaped_def length_all_indices)

lemma get_tabulate: "valid_index sh idx \<Longrightarrow> get (tabulate sh f) idx = f idx"
  by (simp add: get_def tabulate_def offset_less length_all_indices all_indices_nth)

lemma tabulate_cong: "(\<And>idx. valid_index sh idx \<Longrightarrow> f idx = g idx) \<Longrightarrow> tabulate sh f = tabulate sh g"
  by (simp add: tabulate_def set_all_indices)

lemma valid_index_conv: "valid_index sh idx = list_all2 (<) idx sh"
  by (induction sh idx rule: valid_index.induct) simp_all

lemma valid_index_length: "valid_index sh idx \<Longrightarrow> length idx = length sh"
  by (simp add: valid_index_conv list_all2_lengthD)

lemma valid_index_append:
  "valid_index (a @ b) idx =
     (valid_index a (take (length a) idx) \<and> valid_index b (drop (length a) idx))"
proof (induction a arbitrary: idx)
  case Nil
  show ?case by simp
next
  case (Cons n ns)
  show ?case by (cases idx) (simp_all add: Cons.IH)
qed

lemma valid_index_snoc:
  "valid_index (a @ [n]) idx = (idx \<noteq> [] \<and> valid_index a (butlast idx) \<and> last idx < n)"
proof (cases idx rule: rev_cases)
  case Nil
  then show ?thesis by (simp add: valid_index_conv)
next
  case (snoc ys y)
  have "list_all2 (<) (ys @ [y]) (a @ [n]) = list_all2 (<) (rev (ys @ [y])) (rev (a @ [n]))"
    by (simp only: list_all2_rev)
  also have "\<dots> = (list_all2 (<) ys a \<and> y < n)"
    by (auto simp add: list_all2_rev)
  finally show ?thesis using snoc by (simp add: valid_index_conv)
qed

lemma bix_less [simp]: "i < n \<Longrightarrow> bix n i = i"
  by (auto simp add: bix_def)

lemma map2_bix_valid: "valid_index sh idx \<Longrightarrow> map2 bix sh idx = idx"
  by (induction sh idx rule: valid_index.induct) simp_all

lemma bindex_valid: "valid_index sh idx \<Longrightarrow> bindex sh idx = idx"
  by (simp add: bindex_def map2_bix_valid valid_index_length)

lemma bindex_suffix:
  assumes "valid_index (a @ b) idx"
  shows "bindex b idx = drop (length a) idx"
proof -
  have len: "length idx = length a + length b"
    using valid_index_length[OF assms] by simp
  have v: "valid_index b (drop (length a) idx)"
    using assms by (simp only: valid_index_append)
  have "length idx - length b = length a" using len by simp
  then show ?thesis by (simp only: bindex_def map2_bix_valid[OF v])
qed

lemma broadcast_rev_Nil2: "broadcast_rev xs [] = Some xs"
  by (cases xs) simp_all

lemma bdim_same [simp]: "bdim n n = Some n"
  by (simp add: bdim_def)

lemma broadcast_rev_prefix: "broadcast_rev (ys @ xs) ys = Some (ys @ xs)"
  by (induction ys) (simp_all add: broadcast_rev_Nil2)

lemma broadcast_shapes_suffix: "broadcast_shapes (a @ b) b = Some (a @ b)"
  by (simp add: broadcast_shapes_def broadcast_rev_prefix)

lemma tadd_suffix:
  assumes "shape r = a @ shape b"
  shows "tadd r b = Inr (tabulate (shape r) (\<lambda>idx. get r idx + get b (drop (length a) idx)))"
proof -
  have "tabulate (a @ shape b) (\<lambda>idx. get r (bindex (a @ shape b) idx) + get b (bindex (shape b) idx))
      = tabulate (a @ shape b) (\<lambda>idx. get r idx + get b (drop (length a) idx))"
    by (rule tabulate_cong) (simp add: bindex_valid bindex_suffix)
  then show ?thesis by (simp add: tadd_def assms broadcast_shapes_suffix)
qed

lemma valid_index_ConsE:
  assumes "valid_index (n # sh) idx"
  obtains i rest where "idx = i # rest" "i < n" "valid_index sh rest"
  using assms by (cases idx) simp_all

lemma valid_index_snocE:
  assumes "valid_index (sh @ [n]) idx"
  obtains rest i where "idx = rest @ [i]" "i < n" "valid_index sh rest"
proof -
  from assms have "idx \<noteq> []" "valid_index sh (butlast idx)" "last idx < n"
    by (simp_all add: valid_index_snoc)
  moreover from this have "idx = butlast idx @ [last idx]" by simp
  ultimately show ?thesis using that by blast
qed

lemma valid_index_mid:
  "valid_index (lead @ [K, B]) (mid @ [k, b]) = (valid_index lead mid \<and> k < K \<and> b < B)"
proof -
  have "list_all2 (<) (mid @ [k, b]) (lead @ [K, B])
        = list_all2 (<) (rev (mid @ [k, b])) (rev (lead @ [K, B]))"
    by (simp only: list_all2_rev)
  also have "\<dots> = (list_all2 (<) mid lead \<and> k < K \<and> b < B)"
    by (auto simp add: list_all2_rev)
  finally show ?thesis by (simp add: valid_index_conv)
qed

section \<open>The forward pass on inputs of the documented shapes\<close>

lemma einsum_dj_jkb_ok:
  assumes w: "shape w = [J, K, B]" and x: "shape x = lead @ [J]"
  shows "einsum_dj_jkb x w =
         Inr (tabulate (lead @ [K, B]) (\<lambda>idx.
           (\<Sum>j\<leftarrow>[0..<J]. get x (take (length lead) idx @ [j]) *
                          get w [j, idx ! length lead, idx ! Suc (length lead)])))"
proof -
  have "(\<lambda>idx. (\<Sum>j\<leftarrow>[0..<J]. get x (take (length lead) idx @ [bix J j]) *
                    get w [bix J j, idx ! length lead, idx ! Suc (length lead)]))
      = (\<lambda>idx. (\<Sum>j\<leftarrow>[0..<J]. get x (take (length lead) idx @ [j]) *
                    get w [j, idx ! length lead, idx ! Suc (length lead)]))"
    by (rule ext, rule arg_cong[where f = sum_list], rule map_cong) simp_all
  then show ?thesis by (simp add: einsum_dj_jkb_def w x Let_def)
qed

lemma einsum_db_bd_ok:
  assumes "shape r = sh @ [B]"
  shows "einsum_db_bd r = Inr (tabulate (B # sh) (\<lambda>idx. get r (tl idx @ [hd idx])))"
  by (simp add: einsum_db_bd_def assms)

lemma forward_shared:
  assumes ok: "layer_ok l" and sh: "share_input l"
    and x: "shape x = lead @ [nat (in_features l)]"
  shows "forward l x =
         Inr (tabulate (nat (ensemble_size l) # lead @ [nat (out_features l)]) (\<lambda>idx.
           (\<Sum>j\<leftarrow>[0..<nat (in_features l)].
               get x (butlast (tl idx) @ [j]) * get (weight l) [j, last idx, hd idx])
           + get (bias l) [last idx, hd idx]))"
proof -
  define J K E where "J = nat (in_features l)" and "K = nat (out_features l)"
    and "E = nat (ensemble_size l)"
  define n where "n = length lead"
  have w: "shape (weight l) = [J, K, E]" and b: "shape (bias l) = [K, E]"
    using ok by (simp_all add: layer_ok_def J_def K_def E_def)
  define f1 where "f1 = (\<lambda>idx. (\<Sum>j\<leftarrow>[0..<J]. get x (take n idx @ [j]) *
                          get (weight l) [j, idx ! n, idx ! Suc n]))"
  define r1 where "r1 = tabulate (lead @ [K, E]) f1"
  define r2 where "r2 = tabulate (lead @ [K, E]) (\<lambda>idx. get r1 idx + get (bias l) (drop n idx))"
  have e1: "einsum_dj_jkb x (weight l) = Inr r1"
    using einsum_dj_jkb_ok[OF w, of x lead] x by (simp add: r1_def f1_def n_def J_def K_def E_def)
  have "shape r1 = lead @ shape (bias l)" by (simp add: r1_def b)
  from tadd_suffix[OF this] have e2: "tadd r1 (bias l) = Inr r2"
    by (simp add: r2_def r1_def n_def)
  have "shape r2 = (lead @ [K]) @ [E]" by (simp add: r2_def)
  from einsum_db_bd_ok[OF this]
  have e3: "einsum_db_bd r2 = Inr (tabulate (E # lead @ [K]) (\<lambda>idx. get r2 (tl idx @ [hd idx])))" .
  have "tabulate (E # lead @ [K]) (\<lambda>idx. get r2 (tl idx @ [hd idx]))
      = tabulate (E # lead @ [K]) (\<lambda>idx.
           (\<Sum>j\<leftarrow>[0..<J]. get x (butlast (tl idx) @ [j]) * get (weight l) [j, last idx, hd idx])
           + get (bias l) [last idx, hd idx])"
  proof (rule tabulate_cong)
    fix idx assume "valid_index (E # lead @ [K]) idx"
    then obtain e rest where i1: "idx = e # rest" "e < E" "valid_index (lead @ [K]) rest"
      by (rule valid_index_ConsE)
    from i1(3) obtain mid k where i2: "rest = mid @ [k]" "k < K" "valid_index lead mid"
      by (rule valid_index_snocE)
    have len: "length mid = n" using valid_index_length[OF i2(3)] by (simp add: n_def)
    have v: "valid_index (lead @ [K, E]) (mid @ [k, e])"
      using i1 i2 by (simp add: valid_index_mid)
    have "get r2 (mid @ [k, e]) = get r1 (mid @ [k, e]) + get (bias l) [k, e]"
      by (simp add: r2_def get_tabulate[OF v] len)
    also have "get r1 (mid @ [k, e]) = f1 (mid @ [k, e])"
      by (simp add: r1_def get_tabulate[OF v])
    also have "f1 (mid @ [k, e]) = (\<Sum>j\<leftarrow>[0..<J]. get x (mid @ [j]) * get (weight l) [j, k, e])"
      by (simp add: f1_def len nth_append)
    finally show "get r2 (tl idx @ [hd idx]) =
        (\<Sum>j\<leftarrow>[0..<J]. get x (butlast (tl idx) @ [j]) * get (weight l) [j, last idx, hd idx])
        + get (bias l) [last idx, hd idx]"
      by (simp add: i1 i2)
  qed
  then show ?thesis
    using e1 e2 e3 sh by (simp add: forward_def J_def K_def E_def)
qed

lemma valid_index_midE:
  assumes "valid_index (lead @ [K, B]) idx"
  obtains mid k b where "idx = mid @ [k, b]" "valid_index lead mid" "k < K" "b < B"
proof -
  from assms have "valid_index ((lead @ [K]) @ [B]) idx" by simp
  then obtain r1 b where a: "idx = r1 @ [b]" "b < B" "valid_index (lead @ [K]) r1"
    by (rule valid_index_snocE)
  from a(3) obtain mid k where c: "r1 = mid @ [k]" "k < K" "valid_index lead mid"
    by (rule valid_index_snocE)
  show ?thesis using that[of mid k b] a c by simp
qed

lemma einsum_bdj_jkb_ok:
  assumes w: "shape w = [J, K, B]" and x: "shape x = B # mid @ [J]"
  shows "einsum_bdj_jkb x w =
         Inr (tabulate (mid @ [K, B]) (\<lambda>idx.
           (\<Sum>j\<leftarrow>[0..<J]. get x (idx ! Suc (length mid) # take (length mid) idx @ [j]) *
                          get w [j, idx ! length mid, idx ! Suc (length mid)])))"
proof -
  define n where "n = length mid"
  have "tabulate (mid @ [K, B]) (\<lambda>idx.
           (\<Sum>j\<leftarrow>[0..<J]. get x (bix B (idx ! Suc n) # take n idx @ [bix J j]) *
                          get w [bix J j, idx ! n, bix B (idx ! Suc n)]))
      = tabulate (mid @ [K, B]) (\<lambda>idx.
           (\<Sum>j\<leftarrow>[0..<J]. get x (idx ! Suc n # take n idx @ [j]) *
                          get w [j, idx ! n, idx ! Suc n]))"
  proof (rule tabulate_cong)
    fix idx assume "valid_index (mid @ [K, B]) idx"
    then obtain pre k b where i: "idx = pre @ [k, b]" "valid_index mid pre" "k < K" "b < B"
      by (rule valid_index_midE)
    have len: "length pre = n" using valid_index_length[OF i(2)] by (simp add: n_def)
    have b: "bix B (idx ! Suc n) = idx ! Suc n" using i len by (simp add: nth_append)
    show "(\<Sum>j\<leftarrow>[0..<J]. get x (bix B (idx ! Suc n) # take n idx @ [bix J j]) *
                          get w [bix J j, idx ! n, bix B (idx ! Suc n)])
        = (\<Sum>j\<leftarrow>[0..<J]. get x (idx ! Suc n # take n idx @ [j]) *
                          get w [j, idx ! n, idx ! Suc n])"
      unfolding b by (rule arg_cong[where f = sum_list], rule map_cong) simp_all
  qed
  then show ?thesis by (simp add: einsum_bdj_jkb_def w x Let_def n_def)
qed

lemma forward_own:
  assumes ok: "layer_ok l" and sh: "\<not> share_input l"
    and x: "shape x = nat (ensemble_size l) # mid @ [nat (in_features l)]"
  shows "forward l x =
         Inr (tabulate (nat (ensemble_size l) # mid @ [nat (out_features l)]) (\<lambda>idx.
           (\<Sum>j\<leftarrow>[0..<nat (in_features l)].
               get x (hd idx # butlast (tl idx) @ [j]) * get (weight l) [j, last idx, hd idx])
           + get (bias l) [last idx, hd idx]))"
proof -
  define J K E where "J = nat (in_features l)" and "K = nat (out_features l)"
    and "E = nat (ensemble_size l)"
  define n where "n = length mid"
  have w: "shape (weight l) = [J, K, E]" and b: "shape (bias l) = [K, E]"
    using ok by (simp_all add: layer_ok_def J_def K_def E_def)
  define f1 where "f1 = (\<lambda>idx. (\<Sum>j\<leftarrow>[0..<J]. get x (idx ! Suc n # take n idx @ [j]) *
                          get (weight l) [j, idx ! n, idx ! Suc n]))"
  define r1 where "r1 = tabulate (mid @ [K, E]) f1"
  define r2 where "r2 = tabulate (mid @ [K, E]) (\<lambda>idx. get r1 idx + get (bias l) (drop n idx))"
  have e1: "einsum_bdj_jkb x (weight l) = Inr r1"
    using einsum_bdj_jkb_ok[OF w, of x mid] x by (simp add: r1_def f1_def n_def J_def K_def E_def)
  have "shape r1 = mid @ shape (bias l)" by (simp add: r1_def b)
  from tadd_suffix[OF this] have e2: "tadd r1 (bias l) = Inr r2"
    by (simp add: r2_def r1_def n_def)
  have "shape r2 = (mid @ [K]) @ [E]" by (simp add: r2_def)
  from einsum_db_bd_ok[OF this]
  have e3: "einsum_db_bd r2 = Inr (tabulate (E # mid @ [K]) (\<lambda>idx. get r2 (tl idx @ [hd idx])))" .
  have "tabulate (E # mid @ [K]) (\<lambda>idx. get r2 (tl idx @ [hd idx]))
      = tabulate (E # mid @ [K]) (\<lambda>idx.
           (\<Sum>j\<leftarrow>[0..<J]. get x (hd idx # butlast (tl idx) @ [j]) * get (weight l) [j, last idx, hd idx])
           + get (bias l) [last idx, hd idx])"
  proof (rule tabulate_cong)
    fix idx assume "valid_index (E # mid @ [K]) idx"
    then obtain e rest where i1: "idx = e # rest" "e < E" "valid_index (mid @ [K]) rest"
      by (rule valid_index_ConsE)
    from i1(3) obtain pre k where i2: "rest = pre @ [k]" "k < K" "valid_index mid pre"
      by (rule valid_index_snocE)
    have len: "length pre = n" using valid_index_length[OF i2(3)] by (simp add: n_def)
    have v: "valid_index (mid @ [K, E]) (pre @ [k, e])"
      using i1 i2 by (simp add: valid_index_mid)
    have "get r2 (pre @ [k, e]) = get r1 (pre @ [k, e]) + get (bias l) [k, e]"
      by (simp add: r2_def get_tabulate[OF v] len)
    also have "get r1 (pre @ [k, e]) = f1 (pre @ [k, e])"
      by (simp add: r1_def get_tabulate[OF v])
    also have "f1 (pre @ [k, e]) = (\<Sum>j\<leftarrow>[0..<J]. get x (e # pre @ [j]) * get (weight l) [j, k, e])"
      by (simp add: f1_def len nth_append)
    finally show "get r2 (tl idx @ [hd idx]) =
        (\<Sum>j\<leftarrow>[0..<J]. get x (hd idx # butlast (tl idx) @ [j]) * get (weight l) [j, last idx, hd idx])
        + get (bias l) [last idx, hd idx]"
      by (simp add: i1 i2)
  qed
  then show ?thesis
    using e1 e2 e3 sh by (simp add: forward_def J_def K_def E_def)
qed




lemma forward_shared_get:
  assumes ok: "layer_ok l" and sh: "share_input l"
    and x: "shape x = lead @ [nat (in_features l)]"
    and y: "forward l x = Inr y"
    and e: "e < nat (ensemble_size l)" and idx: "valid_index lead idx"
    and k: "k < nat (out_features l)"
  shows "get y (e # idx @ [k]) =
         (\<Sum>j\<leftarrow>[0..<nat (in_features l)]. get x (idx @ [j]) * get (weight l) [j, k, e])
         + get (bias l) [k, e]"
proof -
  have v: "valid_index (nat (ensemble_size l) # lead @ [nat (out_features l)]) (e # idx @ [k])"
    using e idx k by (simp add: valid_index_snoc)
  show ?thesis
    using y unfolding forward_shared[OF ok sh x] by (auto simp add: get_tabulate[OF v])
qed

lemma forward_own_get:
  assumes ok: "layer_ok l" and sh: "\<not> share_input l"
    and x: "shape x = nat (ensemble_size l) # mid @ [nat (in_features l)]"
    and y: "forward l x = Inr y"
    and e: "e < nat (ensemble_size l)" and idx: "valid_index mid idx"
    and k: "k < nat (out_features l)"
  shows "get y (e # idx @ [k]) =
         (\<Sum>j\<leftarrow>[0..<nat (in_features l)]. get x (e # idx @ [j]) * get (weight l) [j, k, e])
         + get (bias l) [k, e]"
proof -
  have v: "valid_index (nat (ensemble_size l) # mid @ [nat (out_features l)]) (e # idx @ [k])"
    using e idx k by (simp add: valid_index_snoc)
  show ?thesis
    using y unfolding forward_own[OF ok sh x] by (auto simp add: get_tabulate[OF v])
qed



lemma layer_ok_scenario: "layer_ok scenario_layer"
  by (simp add: layer_ok_def scenario_layer_def well_shaped_def)




lemma layer_ok_own: "layer_ok own_layer"
  by (simp add: layer_ok_def own_layer_def well_shaped_def)




text \<open>C10: with \<open>share_input\<close> set, any input whose last dimension is \<open>in_features\<close> is accepted,
  whatever its rank and leading dimensions: a vector gives shape [E, out_features], and a leading
  axis of size E is a batch axis like any other, every member reading all of its slices.\<close>

theorem forward_shared_any_rank:
  assumes "layer_ok l" and "share_input l" and "shape x = lead @ [nat (in_features l)]"
  shows "\<exists>y. forward l x = Inr y \<and>
           shape y = nat (ensemble_size l) # lead @ [nat (out_features l)] \<and>
           (lead = [] \<longrightarrow> shape y = [nat (ensemble_size l), nat (out_features l)]) \<and>
           (\<forall>rest e e' idx k. lead = nat (ensemble_size l) # rest \<longrightarrow>
              e < nat (ensemble_size l) \<longrightarrow> e' < nat (ensemble_size l) \<longrightarrow>
              valid_index rest idx \<longrightarrow> k < nat (out_features l) \<longrightarrow>
              get y (e # e' # idx @ [k]) =
                (\<Sum>j\<leftarrow>[0..<nat (in_features l)].
                    get x (e' # idx @ [j]) * get (weight l) [j, k, e])
                + get (bias l) [k, e])"
proof -
  obtain y where y: "forward l x = Inr y"
    and sy: "shape y = nat (ensemble_size l) # lead @ [nat (out_features l)]"
    unfolding forward_shared[OF assms] by simp
  have "get y (e # e' # idx @ [k]) =
          (\<Sum>j\<leftarrow>[0..<nat (in_features l)]. get x (e' # idx @ [j]) * get (weight l) [j, k, e])
          + get (bias l) [k, e]"
    if "lead = nat (ensemble_size l) # rest" "e < nat (ensemble_size l)"
      "e' < nat (ensemble_size l)" "valid_index rest idx" "k < nat (out_features l)"
    for rest e e' idx k
    using forward_shared_get[OF assms y, of e "e' # idx" k] that by simp
  then show ?thesis using y sy by auto
qed

lemma upt_3: "[0..<3] = [0, 1, 2]"
  by (simp add: upt_rec)

theorem forward_shared_any_rank_witness:
  "\<exists>y z. forward scenario_layer scenario_vector = Inr y \<and> shape y = [2, 1] \<and>
       forward scenario_layer scenario_pair = Inr z \<and> shape z = [2, 2, 1] \<and>
       get z [0, 1, 0] = 4 \<and> get z [1, 0, 0] = 2"
proof -
  have s: "share_input scenario_layer" by (simp add: scenario_layer_def)
  have x1: "shape scenario_vector = [] @ [nat (in_features scenario_layer)]"
    by (simp add: scenario_layer_def scenario_vector_def)
  have x2: "shape scenario_pair = [2] @ [nat (in_features scenario_layer)]"
    by (simp add: scenario_layer_def scenario_pair_def)
  from forward_shared_any_rank[OF layer_ok_scenario s x1]
  obtain y where y: "forward scenario_layer scenario_vector = Inr y" "shape y = [2, 1]"
    by (auto simp add: scenario_layer_def)
  from forward_shared_any_rank[OF layer_ok_scenario s x2]
  obtain z where z: "forward scenario_layer scenario_pair = Inr z"
    and sz: "shape z = nat (ensemble_size scenario_layer) # [2] @ [nat (out_features scenario_layer)]"
    and g: "\<And>rest e e' idx k. [2] = nat (ensemble_size scenario_layer) # rest \<Longrightarrow>
              e < nat (ensemble_size scenario_layer) \<Longrightarrow> e' < nat (ensemble_size scenario_layer) \<Longrightarrow>
              valid_index rest idx \<Longrightarrow> k < nat (out_features scenario_layer) \<Longrightarrow>
              get z (e # e' # idx @ [k]) =
                (\<Sum>j\<leftarrow>[0..<nat (in_features scenario_layer)].
                    get scenario_pair (e' # idx @ [j]) * get (weight scenario_layer) [j, k, e])
                + get (bias scenario_layer) [k, e]"
    by blast
  have "get z [0, 1, 0] = 4"
    using g[of "[]" 0 1 "[]" 0] by (simp add: scenario_layer_def scenario_pair_def get_def upt_3)
  moreover have "get z [1, 0, 0] = 2"
    using g[of "[]" 1 0 "[]" 0] by (simp add: scenario_layer_def scenario_pair_def get_def upt_3)
  moreover have "shape z = [2, 2, 1]" using sz by (simp add: scenario_layer_def)
  ultimately show ?thesis using y z by blast
qed

text \<open>An input whose last dimension is 1 is accepted by a layer with \<open>in_features = 3\<close>, and
  an input whose first dimension is 1 by a non-sharing layer with two members: a dimension of
  size 1 is broadcast by the contraction.\<close>

theorem forward_broadcasts_size_one:
  "forward scenario_layer thin_input = Inr (Tensor [2, 2, 1] [5, 7, 5, 7]) \<and>
   forward own_layer single_slice_input = Inr (Tensor [2, 1, 1] [14, 26])"
  by code_simp

text \<open>C6: \<open>forward\<close> fails, returning no output, when the last dimension of the input differs
  from \<open>in_features\<close> and neither of the two is 1, or, without \<open>share_input\<close>, when the first
  dimension differs from the ensemble size and neither of the two is 1; it also fails on an
  input with too few dimensions.\<close>

theorem forward_shape_mismatch:
  assumes "layer_ok l"
  shows "(share_input l \<and>
            (shape x = [] \<or>
             (last (shape x) \<noteq> nat (in_features l) \<and> last (shape x) \<noteq> 1 \<and>
              nat (in_features l) \<noteq> 1))
          \<longrightarrow> forward l x = Inl RuntimeError) \<and>
         (\<not> share_input l \<and>
            (length (shape x) < 2 \<or>
             (last (shape x) \<noteq> nat (in_features l) \<and> last (shape x) \<noteq> 1 \<and>
              nat (in_features l) \<noteq> 1) \<or>
             (hd (shape x) \<noteq> nat (ensemble_size l) \<and> hd (shape x) \<noteq> 1 \<and>
              nat (ensemble_size l) \<noteq> 1))
          \<longrightarrow> forward l x = Inl RuntimeError)"
proof -
  have w: "shape (weight l) = [nat (in_features l), nat (out_features l), nat (ensemble_size l)]"
    using assms by (simp add: layer_ok_def)
  have a: "forward l x = Inl RuntimeError"
    if "share_input l" "shape x = [] \<or>
             (last (shape x) \<noteq> nat (in_features l) \<and> last (shape x) \<noteq> 1 \<and>
              nat (in_features l) \<noteq> 1)"
    using that by (auto simp add: forward_def einsum_dj_jkb_def w bdim_def Let_def)
  have b: "forward l x = Inl RuntimeError"
    if "\<not> share_input l" "length (shape x) < 2 \<or>
             (last (shape x) \<noteq> nat (in_features l) \<and> last (shape x) \<noteq> 1 \<and>
              nat (in_features l) \<noteq> 1) \<or>
             (hd (shape x) \<noteq> nat (ensemble_size l) \<and> hd (shape x) \<noteq> 1 \<and>
              nat (ensemble_size l) \<noteq> 1)"
    using that
    by (auto simp add: forward_def einsum_bdj_jkb_def w bdim_def Let_def split: option.splits)
  show ?thesis using a b by blast
qed

theorem forward_shape_mismatch_witness:
  "forward scenario_layer short_input = Inl RuntimeError \<and>
   forward own_layer three_slice_input = Inl RuntimeError"
  using forward_shape_mismatch[OF layer_ok_scenario, of short_input]
    forward_shape_mismatch[OF layer_ok_own, of three_slice_input]
  by (simp add: scenario_layer_def own_layer_def short_input_def three_slice_input_def)

section \<open>The frame of a forward call\<close>

lemma get_fill_value: "valid_index (shape t) idx \<Longrightarrow> get (fill_value t v) idx = v"
  by (simp add: fill_value_def get_def offset_less)

lemma forward_get:
  assumes ok: "layer_ok l"
    and x: "shape x = (if share_input l then lead else nat (ensemble_size l) # lead)
                        @ [nat (in_features l)]"
  shows "\<exists>y. forward l x = Inr y \<and>
           shape y = nat (ensemble_size l) # lead @ [nat (out_features l)] \<and>
           (\<forall>e idx k. e < nat (ensemble_size l) \<longrightarrow> valid_index lead idx \<longrightarrow>
                        k < nat (out_features l) \<longrightarrow>
              get y (e # idx @ [k]) =
                (\<Sum>j\<leftarrow>[0..<nat (in_features l)].
                   get x ((if share_input l then idx else e # idx) @ [j]) * get (weight l) [j, k, e])
                + get (bias l) [k, e])"
proof (cases "share_input l")
  case True
  then have x': "shape x = lead @ [nat (in_features l)]" using x by simp
  obtain y where y: "forward l x = Inr y"
    and sy: "shape y = nat (ensemble_size l) # lead @ [nat (out_features l)]"
    unfolding forward_shared[OF ok True x'] by simp
  show ?thesis using y sy forward_shared_get[OF ok True x' y] True by auto
next
  case False
  then have x': "shape x = nat (ensemble_size l) # lead @ [nat (in_features l)]" using x by simp
  obtain y where y: "forward l x = Inr y"
    and sy: "shape y = nat (ensemble_size l) # lead @ [nat (out_features l)]"
    unfolding forward_own[OF ok False x'] by simp
  show ?thesis using y sy forward_own_get[OF ok False x' y] False by auto
qed

text \<open>C8: a \<open>forward\<close> call leaves the layer (and the generator) exactly as they were, and its
  result is determined by the input, the weight, the bias and the sharing mode of the layer.\<close>

theorem forward_frame:
  "snd (call_forward x s) = s \<and>
   (weight l1 = weight l2 \<and> bias l1 = bias l2 \<and> share_input l1 = share_input l2 \<longrightarrow>
      fst (call_forward x (l1, g1)) = fst (call_forward x (l2, g2)))"
proof (intro conjI impI)
  show "snd (call_forward x s) = s" by (simp add: call_forward_def)
next
  assume "weight l1 = weight l2 \<and> bias l1 = bias l2 \<and> share_input l1 = share_input l2"
  then have "forward l1 x = forward l2 x"
    unfolding forward_def by (simp only:)
  then show "fst (call_forward x (l1, g1)) = fst (call_forward x (l2, g2))"
    by (simp add: call_forward_def)
qed

theorem forward_frame_witness:
  "snd (call_forward scenario_input (scenario_layer, half_rng)) = (scenario_layer, half_rng) \<and>
   fst (call_forward scenario_input (scenario_layer, half_rng)) =
   fst (call_forward scenario_input (relabelled_layer, three_quarter_rng))"
  using forward_frame[of scenario_input "(scenario_layer, half_rng)" scenario_layer
      relabelled_layer half_rng three_quarter_rng]
  by (simp add: relabelled_layer_def scenario_layer_def)

section \<open>The dispatcher on an ensemble layer\<close>

lemma shape_set_last [simp]: "shape (set_last w i q) = shape w"
  by (simp add: set_last_def)

lemma get_set_last:
  assumes "valid_index (shape w) (idx @ [e])"
  shows "get (set_last w i q) (idx @ [e]) = (if e = i then get q idx else get w (idx @ [e]))"
  using assms by (simp add: set_last_def get_tabulate)

lemma orthogonal_slices_append:
  "orthogonal_slices orth gain (xs @ ys) w g =
     (case orthogonal_slices orth gain xs w g of
        Inl e \<Rightarrow> Inl e
      | Inr (w', g') \<Rightarrow> orthogonal_slices orth gain ys w' g')"
  by (induction xs arbitrary: w g) (simp_all add: Let_def case_prod_beta)

lemma orthogonal_slices_ok:
  assumes "shape w = sh @ [n]" and "\<forall>i \<in> set is. i < n"
  shows "\<exists>w' g'. orthogonal_slices orth gain is w g = Inr (w', g') \<and> shape w' = shape w"
  using assms
proof (induction "is" arbitrary: w g)
  case Nil
  show ?case by simp
next
  case (Cons i "is")
  obtain q g1 where o: "orth (select_last w i) gain g = (q, g1)" by (cases "orth (select_last w i) gain g")
  have s: "shape (set_last w i q) = sh @ [n]" using Cons.prems by simp
  from Cons.IH[OF s, of g1] Cons.prems(2)
  obtain w' g' where "orthogonal_slices orth gain is (set_last w i q) g1 = Inr (w', g')"
    "shape w' = shape (set_last w i q)" by auto
  then show ?case using Cons.prems o by simp
qed

lemma orthogonal_slices_other:
  assumes "shape w = sh @ [n]" and "\<forall>i \<in> set is. i < n" and "e \<notin> set is"
    and "orthogonal_slices orth gain is w g = Inr (w', g')"
    and "valid_index (sh @ [n]) (idx @ [e])"
  shows "get w' (idx @ [e]) = get w (idx @ [e])"
  using assms
proof (induction "is" arbitrary: w g)
  case Nil
  then show ?case by simp
next
  case (Cons i "is")
  obtain q g1 where o: "orth (select_last w i) gain g = (q, g1)" by (cases "orth (select_last w i) gain g")
  have s: "shape (set_last w i q) = sh @ [n]" using Cons.prems by simp
  have r: "orthogonal_slices orth gain is (set_last w i q) g1 = Inr (w', g')"
    using Cons.prems o by simp
  have ne: "e \<noteq> i" using Cons.prems(3) by auto
  have "get w' (idx @ [e]) = get (set_last w i q) (idx @ [e])"
    using Cons.IH[OF s _ _ r Cons.prems(5)] Cons.prems(2,3) by simp
  also have "\<dots> = get w (idx @ [e])"
    using get_set_last[of w idx e i q] Cons.prems(1,5) ne by simp
  finally show ?case .
qed

text \<open>C9: applied to an ensemble layer, the dispatcher runs the orthogonal routine on each
  member's weight slice \<open>weight[..., e]\<close> in turn, leaving the other slices as they are, and
  fills the bias with zeros; it draws nothing by the uniform rule of \<open>reset_parameters\<close>.\<close>

theorem weight_init_ensemble:
  assumes "layer_ok l"
  shows "\<exists>w' g'. weight_init orth (EnsembleModule l) gain g =
             Inr (EnsembleModule (l\<lparr>weight := w', bias := fill_value (bias l) 0\<rparr>), g') \<and>
           shape w' = shape (weight l) \<and>
           (\<forall>e. e < nat (ensemble_size l) \<longrightarrow>
              (\<exists>we ge. orthogonal_slices orth gain [0..<e] (weight l) g = Inr (we, ge) \<and>
                 (\<forall>j k. j < nat (in_features l) \<longrightarrow> k < nat (out_features l) \<longrightarrow>
                    get w' [j, k, e] = get (fst (orth (select_last we e) gain ge)) [j, k])))"
proof -
  define J K E where "J = nat (in_features l)" and "K = nat (out_features l)"
    and "E = nat (ensemble_size l)"
  have w: "shape (weight l) = [J, K] @ [E]"
    using assms by (simp add: layer_ok_def J_def K_def E_def)
  from orthogonal_slices_ok[OF w, of "[0..<E]" orth gain g]
  obtain w' g' where all: "orthogonal_slices orth gain [0..<E] (weight l) g = Inr (w', g')"
    and sw': "shape w' = shape (weight l)" by auto
  have slice: "\<exists>we ge. orthogonal_slices orth gain [0..<e] (weight l) g = Inr (we, ge) \<and>
                 (\<forall>j k. j < J \<longrightarrow> k < K \<longrightarrow>
                    get w' [j, k, e] = get (fst (orth (select_last we e) gain ge)) [j, k])"
    if e: "e < E" for e
  proof -
    from orthogonal_slices_ok[OF w, of "[0..<e]" orth gain g] e
    obtain we ge where pre: "orthogonal_slices orth gain [0..<e] (weight l) g = Inr (we, ge)"
      and swe: "shape we = [J, K] @ [E]" using w by auto
    obtain q g1 where o: "orth (select_last we e) gain ge = (q, g1)"
      by (cases "orth (select_last we e) gain ge")
    have split: "[0..<E] = [0..<e] @ e # [Suc e..<E]"
      using e by (metis le_add1 less_imp_add_positive upt_add_eq_append upt_conv_Cons zero_le)
    have rest: "orthogonal_slices orth gain [Suc e..<E] (set_last we e q) g1 = Inr (w', g')"
      using all pre o swe e
      by (simp add: split orthogonal_slices_append[of orth gain "[0..<e]"])
    have s1: "shape (set_last we e q) = [J, K] @ [E]" using swe by simp
    have "get w' ([j, k] @ [e]) = get q [j, k]" if jk: "j < J" "k < K" for j k
    proof -
      have v: "valid_index ([J, K] @ [E]) ([j, k] @ [e])" using jk e by simp
      have "get w' ([j, k] @ [e]) = get (set_last we e q) ([j, k] @ [e])"
        by (rule orthogonal_slices_other[OF s1 _ _ rest v]) simp_all
      also have "\<dots> = get q [j, k]"
        using get_set_last[of we "[j, k]" e e q] v swe by simp
      finally show ?thesis .
    qed
    then show ?thesis using pre o by auto
  qed
  have "weight_init orth (EnsembleModule l) gain g =
          Inr (EnsembleModule (l\<lparr>weight := w', bias := fill_value (bias l) 0\<rparr>), g')"
    using all by (simp add: weight_init_def E_def)
  then show ?thesis using sw' slice unfolding J_def K_def E_def by blast
qed

lemma layer_ok_unit: "layer_ok unit_layer"
  by (simp add: layer_ok_def unit_layer_def well_shaped_def)

theorem weight_init_ensemble_witness:
  "\<exists>w' g'. weight_init orthogonal_1x1 (EnsembleModule unit_layer) 2 three_quarter_rng =
            Inr (EnsembleModule (unit_layer\<lparr>weight := w', bias := Tensor [1, 1] [0]\<rparr>), g') \<and>
          shape w' = [1, 1, 1] \<and> get w' [0, 0, 0] = 2"
proof -
  from weight_init_ensemble[OF layer_ok_unit, of orthogonal_1x1 2 three_quarter_rng]
  obtain w' g' where r: "weight_init orthogonal_1x1 (EnsembleModule unit_layer) 2 three_quarter_rng =
             Inr (EnsembleModule (unit_layer\<lparr>weight := w',
                    bias := fill_value (bias unit_layer) 0\<rparr>), g')"
    and s: "shape w' = shape (weight unit_layer)"
    and sl: "\<And>e. e < nat (ensemble_size unit_layer) \<Longrightarrow>
              (\<exists>we ge. orthogonal_slices orthogonal_1x1 2 [0..<e] (weight unit_layer)
                          three_quarter_rng = Inr (we, ge) \<and>
                 (\<forall>j k. j < nat (in_features unit_layer) \<longrightarrow> k < nat (out_features unit_layer) \<longrightarrow>
                    get w' [j, k, e] = get (fst (orthogonal_1x1 (select_last we e) 2 ge)) [j, k]))"
    by blast
  from sl[of 0] have "get w' [0, 0, 0] =
      get (fst (orthogonal_1x1 (select_last (weight unit_layer) 0) 2 three_quarter_rng)) [0, 0]"
    by (simp add: unit_layer_def)
  then have "get w' [0, 0, 0] = 2"
    by (simp add: orthogonal_1x1_def select_last_def unit_layer_def three_quarter_rng_def get_def)
  moreover have "fill_value (bias unit_layer) 0 = Tensor [1, 1] [0]"
    by (simp add: fill_value_def unit_layer_def)
  moreover have "shape w' = [1, 1, 1]" using s by (simp add: unit_layer_def)
  ultimately show ?thesis using r by auto
qed

section \<open>Floating-point rounding\<close>

lemma round_even_eval:
  assumes "of_int n - 1 / 2 < y" and "y < of_int n + 1 / 2"
  shows "round_even y = n"
proof (cases "y < of_int n")
  case True
  have f: "\<lfloor>y\<rfloor> = n - 1" using True assms by (intro floor_unique) simp_all
  have "1 / 2 < y - of_int (n - 1)" using assms by simp
  then show ?thesis by (simp add: round_even_def f Let_def)
next
  case False
  have f: "\<lfloor>y\<rfloor> = n" using False assms by (intro floor_unique) simp_all
  have "y - of_int n < 1 / 2" using assms by simp
  then show ?thesis by (simp add: round_even_def f Let_def)
qed

lemma float_round_eval:
  assumes "2 powr of_int e \<le> \<bar>x\<bar>" and "\<bar>x\<bar> < 2 powr of_int (e + 1)"
    and "u = 2 powr of_int (e - int p + 1)"
    and "of_int n - 1 / 2 < x / u" and "x / u < of_int n + 1 / 2"
  shows "float_round p x = of_int n * u"
proof -
  have pos: "0 < \<bar>x\<bar>" using assms(1) by (smt (verit) powr_gt_zero)
  then have nz: "x \<noteq> 0" by auto
  have "\<lfloor>log 2 \<bar>x\<bar>\<rfloor> = e"
    using assms(1,2) pos by (simp add: floor_log_eq_powr_iff)
  then show ?thesis
    using nz assms(3) round_even_eval[OF assms(4,5)] by (simp add: float_round_def Let_def)
qed

lemma float_round_zero [simp]: "float_round p 0 = 0"
  by (simp add: float_round_def)

lemma round_even_ge_floor: "\<lfloor>y\<rfloor> \<le> round_even y"
  by (simp add: round_even_def Let_def)

lemma round_even_le_ceiling: "round_even y \<le> \<lfloor>y\<rfloor> + 1"
  by (simp add: round_even_def Let_def)

lemma float_round_pos:
  assumes "0 < x" and "0 < p"
  shows "0 < float_round p x"
proof -
  define e where "e = \<lfloor>log 2 \<bar>x\<bar>\<rfloor>"
  define u :: real where "u = 2 powr of_int (e - int p + 1)"
  have u: "0 < u" by (simp add: u_def)
  have "2 powr of_int e \<le> x"
    using assms(1) floor_log_eq_powr_iff[of x 2 e] by (simp add: e_def)
  moreover have "2 powr of_int e = 2 powr of_int (int p - 1) * u"
    by (simp add: u_def powr_add[symmetric])
  ultimately have "2 powr of_int (int p - 1) \<le> x / u"
    using u by (simp add: pos_le_divide_eq)
  moreover have "(1::real) \<le> 2 powr of_int (int p - 1)"
    using assms(2) by (intro ge_one_powr_ge_zero) simp_all
  ultimately have "1 \<le> x / u" by linarith
  then have "1 \<le> \<lfloor>x / u\<rfloor>" by simp
  then have "1 \<le> round_even (x / u)" using round_even_ge_floor[of "x / u"] by linarith
  then have "0 < real_of_int (round_even (x / u)) * u" using u by simp
  then show ?thesis using assms(1) by (simp add: float_round_def Let_def e_def u_def)
qed

lemma float_round_neg:
  assumes "x < 0" and "0 < p"
  shows "float_round p x < 0"
proof -
  define e where "e = \<lfloor>log 2 \<bar>x\<bar>\<rfloor>"
  define u :: real where "u = 2 powr of_int (e - int p + 1)"
  have u: "0 < u" by (simp add: u_def)
  have "2 powr of_int e \<le> \<bar>x\<bar>"
    using assms(1) floor_log_eq_powr_iff[of "\<bar>x\<bar>" 2 e] by (simp add: e_def)
  moreover have "2 powr of_int e = 2 powr of_int (int p - 1) * u"
    by (simp add: u_def powr_add[symmetric])
  ultimately have "2 powr of_int (int p - 1) \<le> \<bar>x\<bar> / u"
    using u by (simp add: pos_le_divide_eq)
  moreover have "(1::real) \<le> 2 powr of_int (int p - 1)"
    using assms(2) by (intro ge_one_powr_ge_zero) simp_all
  ultimately have "1 \<le> \<bar>x\<bar> / u" by linarith
  then have "x / u \<le> - 1" using assms(1) by simp
  then have "\<lfloor>x / u\<rfloor> \<le> - 1" by (simp add: floor_le_iff)
  moreover have "round_even (x / u) \<noteq> \<lfloor>x / u\<rfloor> + 1 \<or> \<lfloor>x / u\<rfloor> \<noteq> - 1"
  proof (cases "\<lfloor>x / u\<rfloor> = - 1")
    case True
    then have "x / u = - 1" using \<open>x / u \<le> - 1\<close> by (smt (verit) of_int_floor_le of_int_minus of_int_1)
    then show ?thesis by (simp add: round_even_def Let_def)
  next
    case False
    then show ?thesis by simp
  qed
  ultimately have "round_even (x / u) \<le> - 1"
    using round_even_le_ceiling[of "x / u"] by linarith
  then have "real_of_int (round_even (x / u)) \<le> - 1" by linarith
  then have "real_of_int (round_even (x / u)) < 0" by linarith
  then have "real_of_int (round_even (x / u)) * u < 0" using u
    by (rule mult_neg_pos)
  then show ?thesis using assms(1) by (simp add: float_round_def Let_def e_def u_def)
qed

lemma float64_zero [simp]: "float64 0 = 0"
  by (simp add: float64_def)

lemma float64_pos: "0 < x \<Longrightarrow> 0 < float64 x"
  by (simp add: float64_def float_round_pos)

lemma float64_neg: "x < 0 \<Longrightarrow> float64 x < 0"
  by (simp add: float64_def float_round_neg)

section \<open>Construction and initialisation\<close>

lemma uniform_fill_shape [simp]: "shape (fst (uniform_fill cast t lo hi g)) = shape t"
  by (simp add: uniform_fill_def Let_def)

lemma uniform_fill_well_shaped [simp]: "well_shaped (fst (uniform_fill cast t lo hi g))"
  by (simp add: uniform_fill_def Let_def well_shaped_def)

lemma uniform_fill_length [simp]:
  "length (elems (fst (uniform_fill cast t lo hi g))) = numel (shape t)"
  by (simp add: uniform_fill_def Let_def)

lemma uniform_fill_draws: "unit_draws g \<Longrightarrow> unit_draws (snd (uniform_fill cast t lo hi g))"
  by (simp add: uniform_fill_def Let_def unit_draws_def)

lemma std_of_pos: "0 < n \<Longrightarrow> 0 < std_of n"
  by (simp add: std_of_def float64_pos)

lemma reset_parameters_ok:
  assumes "0 < in_features l"
  shows "reset_parameters cast l g =
         Inr (let std = std_of (in_features l);
                  w = uniform_fill cast (weight l) (- std) std g;
                  b = uniform_fill cast (bias l) (- std) std (snd w)
              in if add_bias l then (l\<lparr>weight := fst w, bias := fst b\<rparr>, snd b)
                 else (l\<lparr>weight := fst w\<rparr>, snd w))"
proof -
  have a: "0 < float64 (real_of_int (in_features l))" using assms by (simp add: float64_pos)
  then have s: "0 < float64 (sqrt (float64 (real_of_int (in_features l))))"
    by (simp add: float64_pos)
  show ?thesis
    using a s by (simp add: reset_parameters_def Let_def case_prod_beta std_of_def)
qed

lemma reset_parameters_zero:
  "in_features l = 0 \<Longrightarrow> reset_parameters cast l g = Inl ZeroDivisionError"
  by (simp add: reset_parameters_def)

lemma reset_parameters_negative:
  "in_features l < 0 \<Longrightarrow> reset_parameters cast l g = Inl ValueError"
  by (simp add: reset_parameters_def float64_neg Let_def)

lemma reset_parameters_pos:
  assumes "reset_parameters cast l g = Inr r"
  shows "0 < in_features l"
proof (rule ccontr)
  assume "\<not> 0 < in_features l"
  then consider "in_features l = 0" | "in_features l < 0" by linarith
  then show False
    using assms reset_parameters_zero[of l cast g] reset_parameters_negative[of l cast g]
    by cases simp_all
qed

lemma alloc_ok:
  assumes "\<forall>d \<in> set dims. 0 \<le> d" and "numel (map nat dims) \<le> mem"
  shows "alloc mem (map IntArg dims) contents =
         Inr (Tensor (map nat dims) (map contents [0..<numel (map nat dims)]))"
proof -
  have eq: "map (\<lambda>d. nat (the_int d)) (map IntArg dims) = map nat dims"
    by (induction dims) simp_all
  have nf: "\<not> (\<exists>d \<in> set (map IntArg dims). is_float d)" by auto
  have nn: "\<not> (\<exists>d \<in> set (map IntArg dims). the_int d < 0)" using assms(1) by auto
  have fit: "\<not> mem < numel (map nat dims)" using assms(2) by simp
  show ?thesis unfolding alloc_def Let_def eq by (simp only: nf nn fit if_False)
qed

lemma init_ok:
  assumes "0 < n_in" and "0 \<le> n_out" and "0 \<le> esize"
    and "nat n_in * nat n_out * nat esize + nat n_out * nat esize \<le> mem"
  shows "\<exists>l g'. init mem junk cast (IntArg n_in) (IntArg n_out) (IntArg esize) share b g
                   = Inr (l, g') \<and> layer_ok l \<and>
           in_features l = n_in \<and> out_features l = n_out \<and> ensemble_size l = esize \<and>
           share_input l = share \<and> add_bias l = b"
proof -
  have w: "alloc mem (map IntArg [n_in, n_out, esize]) junk =
           Inr (Tensor (map nat [n_in, n_out, esize])
                  (map junk [0..<numel (map nat [n_in, n_out, esize])]))"
    using assms by (intro alloc_ok) (simp_all add: mult.assoc)
  have b: "alloc (mem - nat n_in * nat n_out * nat esize) (map IntArg [n_out, esize]) c =
           Inr (Tensor (map nat [n_out, esize]) (map c [0..<numel (map nat [n_out, esize])]))"
    for c
  proof (rule alloc_ok)
    show "\<forall>d \<in> set [n_out, esize]. 0 \<le> d" using assms by simp
    have n: "numel (map nat [n_out, esize]) = nat n_out * nat esize" by simp
    have "nat n_out * nat esize + nat n_in * nat n_out * nat esize \<le> mem"
      using assms(4) by (simp only: add.commute)
    then show "numel (map nat [n_out, esize]) \<le> mem - nat n_in * nat n_out * nat esize"
      unfolding n by (rule add_le_imp_le_diff)
  qed
  show ?thesis
    using assms(1,2,3) w b
    by (simp add: init_def torch_empty_def torch_zeros_def reset_parameters_ok Let_def
        layer_ok_def well_shaped_def mult.assoc)
qed










lemma uniform_fill_bounds:
  assumes "unit_draws g" and "rounding cast" and "lo \<le> hi"
    and "v \<in> set (elems (fst (uniform_fill cast t lo hi g)))"
  shows "cast lo \<le> v \<and> v \<le> cast hi"
proof -
  have m: "mono cast" and idem: "\<And>x. cast (cast x) = cast x"
    using assms(2) by (simp_all add: rounding_def)
  from assms(4) obtain i where v: "v = cast (cast lo + g i * (cast hi - cast lo))"
    by (auto simp add: uniform_fill_def Let_def)
  have u: "0 \<le> g i" "g i \<le> 1" using assms(1) by (simp_all add: unit_draws_def)
  have d: "0 \<le> cast hi - cast lo" using monoD[OF m assms(3)] by simp
  have "0 \<le> g i * (cast hi - cast lo)" using u(1) d by (rule mult_nonneg_nonneg)
  moreover have "g i * (cast hi - cast lo) \<le> 1 * (cast hi - cast lo)"
    using u(2) d by (rule mult_right_mono)
  ultimately have "cast lo \<le> cast lo + g i * (cast hi - cast lo)"
    and "cast lo + g i * (cast hi - cast lo) \<le> cast hi" by simp_all
  then have "cast (cast lo) \<le> v" and "v \<le> cast (cast hi)"
    unfolding v using m by (simp_all add: monoD)
  then show ?thesis by (simp add: idem)
qed

lemma init_reset:
  assumes "init mem junk cast a_in a_out a_e share b g = Inr (l, g')"
  shows "\<exists>w bs. reset_parameters cast
           \<lparr>in_features = the_int a_in, out_features = the_int a_out,
            ensemble_size = the_int a_e,
            share_input = share, add_bias = b, weight = w, bias = bs\<rparr> g = Inr (l, g')"
  using assms by (auto simp add: init_def split: sum.splits)

lemma reset_parameters_bounds:
  assumes d: "unit_draws g" and c: "rounding cast"
    and r: "reset_parameters cast l g = Inr (l', g')"
  shows "(\<forall>v \<in> set (elems (weight l')).
            cast (- std_of (in_features l)) \<le> v \<and> v \<le> cast (std_of (in_features l))) \<and>
         (add_bias l \<longrightarrow>
            (\<forall>v \<in> set (elems (bias l')).
               cast (- std_of (in_features l)) \<le> v \<and> v \<le> cast (std_of (in_features l))))"
proof -
  have pos: "0 < in_features l" using r by (rule reset_parameters_pos)
  define std where "std = std_of (in_features l)"
  have le: "- std \<le> std" unfolding std_def using std_of_pos[OF pos] by linarith
  define w where "w = uniform_fill cast (weight l) (- std) std g"
  have dw: "unit_draws (snd w)" unfolding w_def using d by (rule uniform_fill_draws)
  have wl: "weight l' = fst w"
    using r unfolding reset_parameters_ok[OF pos]
    by (auto simp add: Let_def w_def std_def split: if_splits)
  have bl: "bias l' = fst (uniform_fill cast (bias l) (- std) std (snd w))" if "add_bias l"
    using r that unfolding reset_parameters_ok[OF pos]
    by (auto simp add: Let_def w_def std_def)
  show ?thesis
    unfolding std_def[symmetric]
    using uniform_fill_bounds[OF d c le, of _ "weight l"]
      uniform_fill_bounds[OF dw c le, of _ "bias l"]
    by (auto simp add: wl bl w_def)
qed

text \<open>C4: after construction and after \<open>reset_parameters\<close> every element of \<open>weight\<close>, and of
  \<open>bias\<close> when the bias is trainable, lies between \<open>-std\<close> and \<open>std\<close> as converted to the
  element type of the tensor, \<open>std\<close> being \<open>1.0 / math.sqrt(in_features)\<close> as computed in
  doubles; \<open>reset_parameters\<close> changes nothing of the layer but the contents of \<open>weight\<close> and of
  a trainable \<open>bias\<close>.\<close>

theorem reset_parameters_spec:
  assumes "unit_draws g" and "rounding cast"
  shows "(0 < in_features l \<longrightarrow>
           (\<exists>l' g'. reset_parameters cast l g = Inr (l', g') \<and>
              (\<forall>v \<in> set (elems (weight l')).
                 cast (- std_of (in_features l)) \<le> v \<and> v \<le> cast (std_of (in_features l))) \<and>
              (add_bias l \<longrightarrow>
                 (\<forall>v \<in> set (elems (bias l')).
                    cast (- std_of (in_features l)) \<le> v \<and>
                    v \<le> cast (std_of (in_features l)))) \<and>
              l' = l\<lparr>weight := weight l', bias := bias l'\<rparr> \<and>
              shape (weight l') = shape (weight l) \<and> shape (bias l') = shape (bias l) \<and>
              well_shaped (weight l') \<and>
              (\<not> add_bias l \<longrightarrow> bias l' = bias l) \<and> unit_draws g')) \<and>
         (\<forall>l0 g0. init mem junk cast a_in a_out a_e share b g = Inr (l0, g0) \<longrightarrow>
            (\<forall>v \<in> set (elems (weight l0)).
               cast (- std_of (the_int a_in)) \<le> v \<and> v \<le> cast (std_of (the_int a_in))) \<and>
            (b \<longrightarrow>
               (\<forall>v \<in> set (elems (bias l0)).
                  cast (- std_of (the_int a_in)) \<le> v \<and> v \<le> cast (std_of (the_int a_in)))))"
proof (intro conjI impI allI)
  assume pos: "0 < in_features l"
  obtain l' g' where r: "reset_parameters cast l g = Inr (l', g')"
    unfolding reset_parameters_ok[OF pos] by (cases "add_bias l") (simp_all add: Let_def)
  have frame: "l' = l\<lparr>weight := weight l', bias := bias l'\<rparr>"
    "shape (weight l') = shape (weight l)" "shape (bias l') = shape (bias l)"
    "well_shaped (weight l')" "\<not> add_bias l \<longrightarrow> bias l' = bias l"
    using r unfolding reset_parameters_ok[OF pos] by (auto simp add: Let_def split: if_splits)
  have g': "unit_draws g'"
    using r assms(1) unfolding reset_parameters_ok[OF pos]
    by (auto simp add: Let_def uniform_fill_draws split: if_splits)
  show "\<exists>l' g'. reset_parameters cast l g = Inr (l', g') \<and>
              (\<forall>v \<in> set (elems (weight l')).
                 cast (- std_of (in_features l)) \<le> v \<and> v \<le> cast (std_of (in_features l))) \<and>
              (add_bias l \<longrightarrow>
                 (\<forall>v \<in> set (elems (bias l')).
                    cast (- std_of (in_features l)) \<le> v \<and>
                    v \<le> cast (std_of (in_features l)))) \<and>
              l' = l\<lparr>weight := weight l', bias := bias l'\<rparr> \<and>
              shape (weight l') = shape (weight l) \<and> shape (bias l') = shape (bias l) \<and>
              well_shaped (weight l') \<and>
              (\<not> add_bias l \<longrightarrow> bias l' = bias l) \<and> unit_draws g'"
    using r reset_parameters_bounds[OF assms r] frame g' by blast
next
  fix l0 g0 assume i: "init mem junk cast a_in a_out a_e share b g = Inr (l0, g0)"
  from init_reset[OF i] obtain w bs where
    r: "reset_parameters cast \<lparr>in_features = the_int a_in, out_features = the_int a_out,
            ensemble_size = the_int a_e,
            share_input = share, add_bias = b, weight = w, bias = bs\<rparr> g = Inr (l0, g0)"
    by blast
  from reset_parameters_bounds[OF assms r]
  show "\<forall>v \<in> set (elems (weight l0)).
               cast (- std_of (the_int a_in)) \<le> v \<and> v \<le> cast (std_of (the_int a_in))"
    by simp
  from reset_parameters_bounds[OF assms r]
  show "b \<Longrightarrow> \<forall>v \<in> set (elems (bias l0)).
                  cast (- std_of (the_int a_in)) \<le> v \<and> v \<le> cast (std_of (the_int a_in))"
    by simp
qed

lemma float64_nine: "float64 9 = 9"
  unfolding float64_def
  by (rule float_round_eval[where e = 3 and n = "9 * 2 ^ 49" and u = "1 / 2 ^ 49", THEN trans])
     (simp_all add: powr_minus)

lemma float64_three: "float64 3 = 3"
  unfolding float64_def
  by (rule float_round_eval[where e = 1 and n = "3 * 2 ^ 51" and u = "1 / 2 ^ 51", THEN trans])
     (simp_all add: powr_minus)

lemma float64_third: "float64 (1 / 3) = 6004799503160661 / 18014398509481984"
  unfolding float64_def
  by (rule float_round_eval[where e = "- 2" and n = 6004799503160661 and u = "1 / 2 ^ 54",
        THEN trans])
     (simp_all add: powr_minus)

lemma sqrt_nine: "sqrt 9 = 3"
  by (rule real_sqrt_unique) simp_all

lemma std_of_nine: "std_of 9 = 6004799503160661 / 18014398509481984"
  by (simp add: std_of_def float64_nine sqrt_nine float64_three float64_third)

lemma float32_std_nine:
  "float32 (- (6004799503160661 / 18014398509481984)) = - (11184811 / 33554432)"
  unfolding float32_def
  by (rule float_round_eval[where e = "- 2" and n = "- 11184811" and u = "1 / 2 ^ 25", THEN trans])
     (simp_all add: powr_minus)

lemma float32_bound_nine: "float32 (- (11184811 / 33554432)) = - (11184811 / 33554432)"
  unfolding float32_def
  by (rule float_round_eval[where e = "- 2" and n = "- 11184811" and u = "1 / 2 ^ 25", THEN trans])
     (simp_all add: powr_minus)

text \<open>With 9 input features and float32 elements, a draw of 0 gives the element
  -11184811 / 2^25, which is below -1/3: the double nearest to 1/3 rounds up to float32.\<close>

theorem reset_parameters_exceeds_exact_bound:
  "map_sum id (\<lambda>s. get (weight (fst s)) [0, 0, 0]) (reset_parameters float32 nine_layer zero_rng)
     = Inr (- (11184811 / 33554432)) \<and>
   - (11184811 / 33554432) < - (1 / sqrt (real_of_int (in_features nine_layer)))"
proof -
  have pos: "0 < in_features nine_layer" by (simp add: nine_layer_def)
  have s: "std_of (in_features nine_layer) = 6004799503160661 / 18014398509481984"
    by (simp add: nine_layer_def std_of_nine)
  have "map_sum id (\<lambda>s. get (weight (fst s)) [0, 0, 0])
          (reset_parameters float32 nine_layer zero_rng) = Inr (- (11184811 / 33554432))"
    unfolding reset_parameters_ok[OF pos] s
    by (simp add: Let_def uniform_fill_def nine_layer_def zero_rng_def get_def
        float32_std_nine float32_bound_nine upt_rec)
  moreover have "- (11184811 / 33554432) < - (1 / sqrt (real_of_int (in_features nine_layer)))"
    by (simp add: nine_layer_def sqrt_nine)
  ultimately show ?thesis by simp
qed

lemma round_even_of_int [simp]: "round_even (of_int n) = n"
  by (simp add: round_even_def)

lemma round_even_close: "\<bar>of_int (round_even y) - y\<bar> \<le> 1 / 2"
proof -
  have "of_int \<lfloor>y\<rfloor> \<le> y" "y < of_int \<lfloor>y\<rfloor> + 1" by linarith+
  then show ?thesis by (auto simp add: round_even_def Let_def)
qed

lemma round_even_mono:
  assumes "y1 \<le> y2"
  shows "round_even y1 \<le> round_even y2"
proof (rule ccontr)
  assume "\<not> round_even y1 \<le> round_even y2"
  then have gt: "round_even y2 + 1 \<le> round_even y1" by simp
  then have gt': "of_int (round_even y2) + 1 \<le> (of_int (round_even y1) :: real)"
    by (metis of_int_1 of_int_add of_int_le_iff)
  have c1: "of_int (round_even y1) \<le> y1 + 1 / 2" using round_even_close[of y1] by linarith
  have c2: "y2 - 1 / 2 \<le> of_int (round_even y2)" using round_even_close[of y2] by linarith
  have "y1 = y2" using gt' c1 c2 assms by linarith
  then show False using gt by simp
qed

lemma round_even_lower: "of_int m \<le> y \<Longrightarrow> m \<le> round_even y"
  using round_even_mono[of "of_int m" y] by simp

lemma round_even_upper: "y \<le> of_int m \<Longrightarrow> round_even y \<le> m"
  using round_even_mono[of y "of_int m"] by simp

lemma round_even_minus: "round_even (- y) = - round_even y"
proof (cases "y = of_int \<lfloor>y\<rfloor>")
  case True
  then have "round_even (- of_int \<lfloor>y\<rfloor>) = - round_even (of_int \<lfloor>y\<rfloor>)"
    by (metis of_int_minus round_even_of_int)
  then show ?thesis using True by simp
next
  case False
  define f where "f = \<lfloor>y\<rfloor>"
  have lt: "of_int f < y" "y < of_int f + 1" using False by (simp_all add: f_def) linarith+
  have fm: "\<lfloor>- y\<rfloor> = - f - 1" using lt by (intro floor_unique) simp_all
  have fy: "\<lfloor>y\<rfloor> = f" by (simp add: f_def)
  consider "y - of_int f < 1 / 2" | "y - of_int f = 1 / 2" | "1 / 2 < y - of_int f" by linarith
  then show ?thesis
  proof cases
    case 1
    then show ?thesis by (simp add: round_even_def Let_def fm fy)
  next
    case 2
    then have "- y - of_int (- f - 1) = 1 / 2" by simp
    then show ?thesis using 2 by (simp add: round_even_def Let_def fm fy)
  next
    case 3
    then show ?thesis by (simp add: round_even_def Let_def fm fy)
  qed
qed

lemma float_round_minus: "float_round p (- x) = - float_round p x"
  by (simp add: float_round_def Let_def round_even_minus)

lemma two_powr_nat: "(2::real) powr of_int (int n) = 2 ^ n"
  by (simp add: powr_realpow)

lemma float_round_pos_form:
  assumes "0 < x" and "0 < p"
  obtains e N where "2 powr of_int e \<le> x" and "x < 2 powr of_int (e + 1)"
    and "e = \<lfloor>log 2 x\<rfloor>"
    and "N = round_even (x / 2 powr of_int (e - int p + 1))"
    and "float_round p x = of_int N * 2 powr of_int (e - int p + 1)"
    and "2 ^ (p - 1) \<le> N" and "N \<le> 2 ^ p"
proof -
  define e where "e = \<lfloor>log 2 x\<rfloor>"
  define u :: real where "u = 2 powr of_int (e - int p + 1)"
  define N where "N = round_even (x / u)"
  have u: "0 < u" by (simp add: u_def)
  have b: "2 powr of_int e \<le> x" "x < 2 powr of_int (e + 1)"
    using assms(1) floor_log_eq_powr_iff[of x 2 e] by (simp_all add: e_def)
  have p1: "int (p - 1) = int p - 1" using assms(2) by simp
  have lo: "2 powr of_int e = 2 ^ (p - 1) * u"
  proof -
    have "(2::real) ^ (p - 1) * u = 2 powr of_int (int (p - 1)) * u" by (simp only: two_powr_nat)
    also have "\<dots> = 2 powr (of_int (int (p - 1)) + of_int (e - int p + 1))"
      by (simp only: u_def powr_add)
    also have "of_int (int (p - 1)) + of_int (e - int p + 1) = (of_int e :: real)"
      using p1 by simp
    finally show ?thesis by simp
  qed
  have hi: "2 powr of_int (e + 1) = 2 ^ p * u"
  proof -
    have "(2::real) ^ p * u = 2 powr of_int (int p) * u" by (simp only: two_powr_nat)
    also have "\<dots> = 2 powr (of_int (int p) + of_int (e - int p + 1))"
      by (simp only: u_def powr_add)
    also have "of_int (int p) + of_int (e - int p + 1) = (of_int (e + 1) :: real)" by simp
    finally show ?thesis by simp
  qed
  have "2 ^ (p - 1) * u \<le> x" using b(1) unfolding lo .
  then have "2 ^ (p - 1) \<le> x / u" using u by (simp add: pos_le_divide_eq)
  then have "of_int (2 ^ (p - 1)) \<le> x / u" by simp
  then have n1: "2 ^ (p - 1) \<le> N" unfolding N_def by (rule round_even_lower)
  have "x < 2 ^ p * u" using b(2) unfolding hi .
  then have "x / u \<le> 2 ^ p" using u by (simp add: pos_divide_le_eq)
  then have "x / u \<le> of_int (2 ^ p)" by simp
  then have n2: "N \<le> 2 ^ p" unfolding N_def by (rule round_even_upper)
  have f: "float_round p x = of_int N * u"
    using assms(1) by (simp add: float_round_def Let_def e_def u_def N_def)
  show ?thesis
    using that[of e N] b n1 n2 f by (simp add: e_def N_def u_def)
qed

lemma binade_scale:
  assumes "0 < p"
  shows "(2::real) ^ (p - 1) * 2 powr of_int (e - int p + 1) = 2 powr of_int e"
    and "(2::real) ^ p * 2 powr of_int (e - int p + 1) = 2 powr of_int (e + 1)"
proof -
  have p1: "int (p - 1) = int p - 1" using assms by simp
  have "(2::real) ^ (p - 1) * 2 powr of_int (e - int p + 1)
        = 2 powr (of_int (int (p - 1)) + of_int (e - int p + 1))"
    by (simp only: two_powr_nat[symmetric] powr_add)
  also have "of_int (int (p - 1)) + of_int (e - int p + 1) = (of_int e :: real)" using p1 by simp
  finally show "(2::real) ^ (p - 1) * 2 powr of_int (e - int p + 1) = 2 powr of_int e" .
  have "(2::real) ^ p * 2 powr of_int (e - int p + 1)
        = 2 powr (of_int (int p) + of_int (e - int p + 1))"
    by (simp only: two_powr_nat[symmetric] powr_add)
  also have "of_int (int p) + of_int (e - int p + 1) = (of_int (e + 1) :: real)" by simp
  finally show "(2::real) ^ p * 2 powr of_int (e - int p + 1) = 2 powr of_int (e + 1)" .
qed

lemma float_round_mono_pos:
  assumes "0 < x" and "x \<le> y" and "0 < p"
  shows "float_round p x \<le> float_round p y"
proof -
  have y: "0 < y" using assms by linarith
  obtain e N where x: "e = \<lfloor>log 2 x\<rfloor>"
    "N = round_even (x / 2 powr of_int (e - int p + 1))"
    "float_round p x = of_int N * 2 powr of_int (e - int p + 1)" "N \<le> 2 ^ p"
    using float_round_pos_form[OF assms(1,3)] by metis
  obtain e' N' where y': "e' = \<lfloor>log 2 y\<rfloor>"
    "N' = round_even (y / 2 powr of_int (e' - int p + 1))"
    "float_round p y = of_int N' * 2 powr of_int (e' - int p + 1)" "2 ^ (p - 1) \<le> N'"
    using float_round_pos_form[OF y assms(3)] by metis
  have "log 2 x \<le> log 2 y" using assms(1,2) by simp
  then have le: "e \<le> e'" unfolding x(1) y'(1) by (rule floor_mono)
  show ?thesis
  proof (cases "e = e'")
    case True
    define u :: real where "u = 2 powr of_int (e - int p + 1)"
    have u: "0 < u" by (simp add: u_def)
    have "x / u \<le> y / u" using assms(2) u by (simp add: divide_right_mono)
    then have "N \<le> N'" using x(2) y'(2) True by (simp add: u_def round_even_mono)
    then have "of_int N * u \<le> of_int N' * u" using u by simp
    then show ?thesis using x(3) y'(3) True by (simp add: u_def)
  next
    case False
    then have lt: "e + 1 \<le> e'" using le by simp
    have "float_round p x \<le> 2 ^ p * 2 powr of_int (e - int p + 1)"
    proof -
      have "real_of_int N \<le> 2 ^ p" using x(4) by (metis of_int_le_iff of_int_numeral of_int_power)
      then show ?thesis unfolding x(3) by (intro mult_right_mono) simp_all
    qed
    also have "\<dots> = 2 powr of_int (e + 1)" by (rule binade_scale(2)[OF assms(3)])
    also have "\<dots> \<le> 2 powr of_int e'" using lt by (simp add: powr_mono)
    also have "\<dots> = 2 ^ (p - 1) * 2 powr of_int (e' - int p + 1)"
      by (rule binade_scale(1)[OF assms(3), symmetric])
    also have "\<dots> \<le> float_round p y"
    proof -
      have "2 ^ (p - 1) \<le> real_of_int N'"
        using y'(4) by (metis of_int_le_iff of_int_numeral of_int_power)
      then show ?thesis unfolding y'(3) by (intro mult_right_mono) simp_all
    qed
    finally show ?thesis .
  qed
qed

lemma float_round_mono:
  assumes "0 < p"
  shows "mono (float_round p)"
proof (rule monoI)
  fix x y :: real assume le: "x \<le> y"
  consider "0 < x" | "x = 0" | "x < 0" "0 \<le> y" | "x < 0" "y < 0" by linarith
  then show "float_round p x \<le> float_round p y"
  proof cases
    case 1
    then show ?thesis using le assms by (rule float_round_mono_pos)
  next
    case 2
    show ?thesis
    proof (cases "y = 0")
      case True
      then show ?thesis using 2 by simp
    next
      case False
      then have "0 < y" using le 2 by simp
      from float_round_pos[OF this assms] show ?thesis using 2 by simp
    qed
  next
    case 3
    have "float_round p x < 0" using 3(1) assms by (rule float_round_neg)
    moreover have "0 \<le> float_round p y"
    proof (cases "y = 0")
      case True
      then show ?thesis by simp
    next
      case False
      then have "0 < y" using 3(2) by simp
      from float_round_pos[OF this assms] show ?thesis by simp
    qed
    ultimately show ?thesis by linarith
  next
    case 4
    have "float_round p (- y) \<le> float_round p (- x)"
      using 4 le assms by (intro float_round_mono_pos) simp_all
    then show ?thesis by (simp add: float_round_minus)
  qed
qed

lemma float_round_idem_pos:
  assumes "0 < x" and "0 < p"
  shows "float_round p (float_round p x) = float_round p x"
proof -
  obtain e N where f: "float_round p x = of_int N * 2 powr of_int (e - int p + 1)"
    and n: "2 ^ (p - 1) \<le> N" "N \<le> 2 ^ p"
    using float_round_pos_form[OF assms] by metis
  define u :: real where "u = 2 powr of_int (e - int p + 1)"
  have u: "0 < u" by (simp add: u_def)
  have rn: "2 ^ (p - 1) \<le> real_of_int N" "real_of_int N \<le> 2 ^ p"
    using n by (metis of_int_le_iff of_int_numeral of_int_power)+
  have npos: "0 < real_of_int N"
  proof -
    have "(0::real) < 2 ^ (p - 1)" by simp
    then show ?thesis using rn(1) by linarith
  qed
  have fx: "float_round p x = of_int N * u" by (simp add: f u_def)
  show ?thesis
  proof (cases "N = 2 ^ p")
    case False
    then have "N < 2 ^ p" using n(2) by simp
    then have "N + 1 \<le> 2 ^ p" by simp
    then have "real_of_int (N + 1) \<le> 2 ^ p"
      by (metis of_int_le_iff of_int_numeral of_int_power)
    moreover have "real_of_int (N + 1) = real_of_int N + 1" by simp
    ultimately have lt: "real_of_int N < 2 ^ p" by linarith
    have "float_round p (of_int N * u) = of_int N * u"
    proof (rule float_round_eval[where e = e])
      have "2 powr of_int e = 2 ^ (p - 1) * u"
        unfolding u_def by (rule binade_scale(1)[OF assms(2), symmetric])
      also have "\<dots> \<le> of_int N * u" using rn(1) u by (intro mult_right_mono) simp_all
      finally show "2 powr of_int e \<le> \<bar>of_int N * u\<bar>" using npos u by simp
      have "of_int N * u < 2 ^ p * u" using lt u by simp
      also have "\<dots> = 2 powr of_int (e + 1)"
        unfolding u_def by (rule binade_scale(2)[OF assms(2)])
      finally show "\<bar>of_int N * u\<bar> < 2 powr of_int (e + 1)" using npos u by simp
      show "u = 2 powr of_int (e - int p + 1)" by (simp add: u_def)
      show "of_int N - 1 / 2 < of_int N * u / u" using u by simp
      show "of_int N * u / u < of_int N + 1 / 2" using u by simp
    qed
    then show ?thesis by (simp add: fx)
  next
    case True
    define M :: int where "M = 2 ^ (p - 1)"
    have m2: "real_of_int N = 2 * real_of_int M"
    proof -
      have "(2::int) ^ p = 2 * 2 ^ (p - 1)" using assms(2) by (cases p) simp_all
      then show ?thesis using True by (simp add: M_def)
    qed
    have u2: "2 powr of_int (e + 1 - int p + 1) = 2 * u"
    proof -
      have "of_int (e + 1 - int p + 1) = of_int (e - int p + 1) + (1::real)" by simp
      then show ?thesis by (simp only: u_def powr_add) simp
    qed
    have rm: "real_of_int M = 2 ^ (p - 1)" by (simp add: M_def)
    have "float_round p (of_int N * u) = of_int M * (2 * u)"
    proof (rule float_round_eval[where e = "e + 1"])
      have e1: "2 powr of_int (e + 1) = of_int N * u"
        using binade_scale(2)[OF assms(2), of e] True by (simp add: u_def)
      have "\<bar>(2::real) powr of_int (e + 1)\<bar> = 2 powr of_int (e + 1)"
        by (rule abs_of_nonneg) (rule powr_ge_zero)
      then have ab: "\<bar>of_int N * u\<bar> = 2 powr of_int (e + 1)" by (simp only: e1)
      show "2 powr of_int (e + 1) \<le> \<bar>of_int N * u\<bar>" by (simp only: ab order_refl)
      have lt2: "(2::real) powr of_int (e + 1) < 2 powr of_int (e + 1 + 1)"
        by (intro powr_less_mono) simp_all
      show "\<bar>of_int N * u\<bar> < 2 powr of_int (e + 1 + 1)"
        by (simp only: ab lt2)
      show "2 * u = 2 powr of_int (e + 1 - int p + 1)" by (rule u2[symmetric])
      have "of_int N * u / (2 * u) = of_int M" using u m2 by simp
      then show "of_int M - 1 / 2 < of_int N * u / (2 * u)"
        and "of_int N * u / (2 * u) < of_int M + 1 / 2" by simp_all
    qed
    then show ?thesis using m2 by (simp add: fx)
  qed
qed

lemma float_round_idem:
  assumes "0 < p"
  shows "float_round p (float_round p x) = float_round p x"
proof -
  consider "0 < x" | "x = 0" | "x < 0" by linarith
  then show ?thesis
  proof cases
    case 1
    then show ?thesis using assms by (rule float_round_idem_pos)
  next
    case 2
    then show ?thesis by simp
  next
    case 3
    then have "float_round p (float_round p (- x)) = float_round p (- x)"
      using assms by (intro float_round_idem_pos) simp_all
    then show ?thesis by (simp add: float_round_minus)
  qed
qed

lemma rounding_float_round: "0 < p \<Longrightarrow> rounding (float_round p)"
  by (simp add: rounding_def float_round_mono float_round_idem)

lemma rounding_float32: "rounding float32"
  by (simp add: float32_def rounding_float_round)

section \<open>The forward pass in the arithmetic of the element type\<close>

lemma dot_fl_cong:
  assumes "\<And>j. j < n \<Longrightarrow> f j = g j"
  shows "dot_fl cast f n = dot_fl cast g n"
  unfolding dot_fl_def by (rule foldl_cong) (simp_all add: assms)

lemma dot_fl_range:
  assumes "rounding cast"
  shows "cast (dot_fl cast f n) = dot_fl cast f n"
proof (cases n)
  case 0
  then show ?thesis using assms by (simp add: dot_fl_def rounding_def)
next
  case (Suc m)
  then show ?thesis using assms by (simp add: dot_fl_def rounding_def)
qed

lemma tadd_fl_suffix:
  assumes "shape r = a @ shape b"
  shows "tadd_fl cast r b =
         Inr (tabulate (shape r) (\<lambda>idx. cast (get r idx + get b (drop (length a) idx))))"
proof -
  have "tabulate (a @ shape b)
          (\<lambda>idx. cast (get r (bindex (a @ shape b) idx) + get b (bindex (shape b) idx)))
      = tabulate (a @ shape b) (\<lambda>idx. cast (get r idx + get b (drop (length a) idx)))"
    by (rule tabulate_cong) (simp add: bindex_valid bindex_suffix)
  then show ?thesis by (simp add: tadd_fl_def assms broadcast_shapes_suffix)
qed

lemma einsum_dj_jkb_fl_ok:
  assumes w: "shape w = [J, K, B]" and x: "shape x = lead @ [J]"
  shows "einsum_dj_jkb_fl cast x w =
         Inr (tabulate (lead @ [K, B]) (\<lambda>idx.
           dot_fl cast (\<lambda>j. get x (take (length lead) idx @ [j]) *
                          get w [j, idx ! length lead, idx ! Suc (length lead)]) J))"
proof -
  have "(\<lambda>idx. dot_fl cast (\<lambda>j. get x (take (length lead) idx @ [bix J j]) *
                    get w [bix J j, idx ! length lead, idx ! Suc (length lead)]) J)
      = (\<lambda>idx. dot_fl cast (\<lambda>j. get x (take (length lead) idx @ [j]) *
                    get w [j, idx ! length lead, idx ! Suc (length lead)]) J)"
    by (rule ext, rule dot_fl_cong) simp
  then show ?thesis by (simp add: einsum_dj_jkb_fl_def w x Let_def)
qed

lemma einsum_bdj_jkb_fl_ok:
  assumes w: "shape w = [J, K, B]" and x: "shape x = B # mid @ [J]"
  shows "einsum_bdj_jkb_fl cast x w =
         Inr (tabulate (mid @ [K, B]) (\<lambda>idx.
           dot_fl cast (\<lambda>j. get x (idx ! Suc (length mid) # take (length mid) idx @ [j]) *
                          get w [j, idx ! length mid, idx ! Suc (length mid)]) J))"
proof -
  define n where "n = length mid"
  have "tabulate (mid @ [K, B]) (\<lambda>idx.
           dot_fl cast (\<lambda>j. get x (bix B (idx ! Suc n) # take n idx @ [bix J j]) *
                          get w [bix J j, idx ! n, bix B (idx ! Suc n)]) J)
      = tabulate (mid @ [K, B]) (\<lambda>idx.
           dot_fl cast (\<lambda>j. get x (idx ! Suc n # take n idx @ [j]) *
                          get w [j, idx ! n, idx ! Suc n]) J)"
  proof (rule tabulate_cong)
    fix idx assume "valid_index (mid @ [K, B]) idx"
    then obtain pre k b where i: "idx = pre @ [k, b]" "valid_index mid pre" "k < K" "b < B"
      by (rule valid_index_midE)
    have len: "length pre = n" using valid_index_length[OF i(2)] by (simp add: n_def)
    have b: "bix B (idx ! Suc n) = idx ! Suc n" using i len by (simp add: nth_append)
    show "dot_fl cast (\<lambda>j. get x (bix B (idx ! Suc n) # take n idx @ [bix J j]) *
                          get w [bix J j, idx ! n, bix B (idx ! Suc n)]) J
        = dot_fl cast (\<lambda>j. get x (idx ! Suc n # take n idx @ [j]) *
                          get w [j, idx ! n, idx ! Suc n]) J"
      unfolding b by (rule dot_fl_cong) simp
  qed
  then show ?thesis by (simp add: einsum_bdj_jkb_fl_def w x Let_def n_def)
qed

lemma forward_fl_get:
  assumes ok: "layer_ok l"
    and x: "shape x = (if share_input l then lead else nat (ensemble_size l) # lead)
                        @ [nat (in_features l)]"
  shows "\<exists>y. forward_fl cast l x = Inr y \<and>
           shape y = nat (ensemble_size l) # lead @ [nat (out_features l)] \<and>
           well_shaped y \<and>
           (\<forall>e idx k. e < nat (ensemble_size l) \<longrightarrow> valid_index lead idx \<longrightarrow>
                        k < nat (out_features l) \<longrightarrow>
              get y (e # idx @ [k]) =
                cast (contraction_fl cast l x (if share_input l then idx else e # idx) k e
                      + get (bias l) [k, e]))"
proof -
  define J K E where "J = nat (in_features l)" and "K = nat (out_features l)"
    and "E = nat (ensemble_size l)"
  define n where "n = length lead"
  have w: "shape (weight l) = [J, K, E]" and b: "shape (bias l) = [K, E]"
    using ok by (simp_all add: layer_ok_def J_def K_def E_def)
  define f1 where "f1 = (\<lambda>idx. dot_fl cast
      (\<lambda>j. get x ((if share_input l then take n idx else idx ! Suc n # take n idx) @ [j]) *
           get (weight l) [j, idx ! n, idx ! Suc n]) J)"
  define r1 where "r1 = tabulate (lead @ [K, E]) f1"
  define r2 where
    "r2 = tabulate (lead @ [K, E]) (\<lambda>idx. cast (get r1 idx + get (bias l) (drop n idx)))"
  have e1: "(if share_input l then einsum_dj_jkb_fl cast x (weight l)
             else einsum_bdj_jkb_fl cast x (weight l)) = Inr r1"
  proof (cases "share_input l")
    case True
    then have "shape x = lead @ [J]" using x by (simp add: J_def)
    from einsum_dj_jkb_fl_ok[OF w this, of cast] True
    show ?thesis by (simp add: r1_def f1_def n_def)
  next
    case False
    then have "shape x = E # lead @ [J]" using x by (simp add: J_def E_def)
    from einsum_bdj_jkb_fl_ok[OF w this, of cast] False
    show ?thesis by (simp add: r1_def f1_def n_def)
  qed
  have "shape r1 = lead @ shape (bias l)" by (simp add: r1_def b)
  from tadd_fl_suffix[OF this] have e2: "tadd_fl cast r1 (bias l) = Inr r2"
    by (simp add: r2_def r1_def n_def)
  have "shape r2 = (lead @ [K]) @ [E]" by (simp add: r2_def)
  from einsum_db_bd_ok[OF this]
  have e3: "einsum_db_bd r2 = Inr (tabulate (E # lead @ [K]) (\<lambda>idx. get r2 (tl idx @ [hd idx])))" .
  define y where "y = tabulate (E # lead @ [K]) (\<lambda>idx. get r2 (tl idx @ [hd idx]))"
  have fy: "forward_fl cast l x = Inr y"
    using e1 e2 e3 by (simp add: forward_fl_def y_def)
  have gy: "get y (e # idx @ [k]) =
              cast (contraction_fl cast l x (if share_input l then idx else e # idx) k e
                    + get (bias l) [k, e])"
    if "e < E" "valid_index lead idx" "k < K" for e idx k
  proof -
    have len: "length idx = n" using valid_index_length[OF that(2)] by (simp add: n_def)
    have v0: "valid_index (E # lead @ [K]) (e # idx @ [k])"
      using that by (simp add: valid_index_snoc)
    have v: "valid_index (lead @ [K, E]) (idx @ [k, e])"
      using that by (simp add: valid_index_mid)
    have "get y (e # idx @ [k]) = get r2 (idx @ [k, e])"
      by (simp add: y_def get_tabulate[OF v0])
    also have "\<dots> = cast (get r1 (idx @ [k, e]) + get (bias l) [k, e])"
      by (simp add: r2_def get_tabulate[OF v] len)
    also have "get r1 (idx @ [k, e]) = f1 (idx @ [k, e])"
      by (simp add: r1_def get_tabulate[OF v])
    also have "f1 (idx @ [k, e]) =
        contraction_fl cast l x (if share_input l then idx else e # idx) k e"
      by (simp add: f1_def contraction_fl_def len nth_append J_def)
    finally show ?thesis .
  qed
  show ?thesis
    using fy gy by (auto simp add: y_def J_def K_def E_def)
qed

section \<open>The fixed bias\<close>

lemma step_keeps_fixed_bias:
  assumes "\<not> add_bias (fst s)"
  shows "\<not> add_bias (fst (step cast c s)) \<and> bias (fst (step cast c s)) = bias (fst s)"
proof (cases c)
  case Reset
  show ?thesis
  proof (cases "reset_parameters cast (fst s) (snd s)")
    case (Inl e)
    then show ?thesis using assms Reset by (simp add: call_reset_def)
  next
    case (Inr s')
    then have pos: "0 < in_features (fst s)" by (rule reset_parameters_pos)
    have "\<not> add_bias (fst s') \<and> bias (fst s') = bias (fst s)"
      using Inr assms unfolding reset_parameters_ok[OF pos] by (auto simp add: Let_def)
    then show ?thesis using Inr Reset by (simp add: call_reset_def)
  qed
next
  case (Forward x)
  then show ?thesis using assms by (simp add: call_forward_def)
qed

lemma run_keeps_fixed_bias:
  "\<not> add_bias (fst s) \<Longrightarrow> bias (fst (run cast cs s)) = bias (fst s)"
proof (induction cs arbitrary: s)
  case Nil
  show ?case by (simp add: run_def)
next
  case (Cons c cs)
  have "bias (fst (run cast cs (step cast c s))) = bias (fst (step cast c s))"
    using Cons.IH[of "step cast c s"] step_keeps_fixed_bias[OF Cons.prems] by simp
  then show ?case using step_keeps_fixed_bias[OF Cons.prems, of cast c] by (simp add: run_def)
qed

lemma alloc_shape:
  assumes "alloc mem dims c = Inr t"
  shows "t = Tensor (map (\<lambda>d. nat (the_int d)) dims)
               (map c [0..<numel (map (\<lambda>d. nat (the_int d)) dims)])"
  using assms by (auto simp add: alloc_def Let_def split: if_splits)

lemma init_no_bias:
  assumes "init mem junk cast a_in a_out a_e share False g = Inr (l, g')"
  shows "\<not> add_bias l \<and>
         bias l = Tensor [nat (the_int a_out), nat (the_int a_e)]
                    (replicate (nat (the_int a_out) * nat (the_int a_e)) 0)"
proof -
  from assms obtain w bs where w: "torch_empty mem junk [a_in, a_out, a_e] = Inr w"
    and bs: "torch_zeros (mem - numel (shape w)) [a_out, a_e] = Inr bs"
    and r: "reset_parameters cast
           \<lparr>in_features = the_int a_in, out_features = the_int a_out,
            ensemble_size = the_int a_e,
            share_input = share, add_bias = False, weight = w, bias = bs\<rparr> g = Inr (l, g')"
    by (auto simp add: init_def split: sum.splits)
  have pos: "0 < the_int a_in" using reset_parameters_pos[OF r] by simp
  have b: "bs = Tensor [nat (the_int a_out), nat (the_int a_e)]
                    (replicate (nat (the_int a_out) * nat (the_int a_e)) 0)"
    using alloc_shape[OF bs[unfolded torch_zeros_def]] by (simp add: map_replicate_const)
  have "\<not> add_bias l \<and> bias l = bs"
    using r unfolding reset_parameters_ok[of "\<lparr>in_features = the_int a_in,
            out_features = the_int a_out, ensemble_size = the_int a_e,
            share_input = share, add_bias = False, weight = w, bias = bs\<rparr>", simplified, OF pos]
    by (auto simp add: Let_def)
  then show ?thesis using b by simp
qed

lemma float32_one: "float32 1 = 1"
  unfolding float32_def
  by (rule float_round_eval[where e = 0 and n = "2 ^ 23" and u = "1 / 2 ^ 23", THEN trans])
     (simp_all add: powr_minus)

lemma float32_large: "float32 33554433 = 33554432"
  unfolding float32_def
  by (rule float_round_eval[where e = 25 and n = 8388608 and u = 4, THEN trans])
     (simp_all add: powr_minus)

lemma layer_ok_plain: "layer_ok plain_layer"
  by (simp add: layer_ok_def plain_layer_def well_shaped_def)

lemma layer_ok_large_bias: "layer_ok large_bias_layer"
  by (simp add: layer_ok_def large_bias_layer_def plain_layer_def well_shaped_def)

lemma contraction_unit:
  "contraction_fl float32 plain_layer unit_input [] 0 0 = 1"
  "contraction_fl float32 large_bias_layer unit_input [] 0 0 = 1"
  by (simp_all add: contraction_fl_def dot_fl_def plain_layer_def large_bias_layer_def
      unit_input_def get_def float32_one)

text \<open>In float32, a layer with weight 1 and bias 2^25 maps the input 1 to 2^25: the sum
  1 + 2^25 is rounded. Its output minus its bias is 0, where the layer without bias gives
  1.\<close>

theorem bias_subtraction_fails_in_float32:
  "map_sum id (\<lambda>y. get y [0, 0]) (forward_fl float32 plain_layer unit_input) = Inr 1 \<and>
   map_sum id (\<lambda>y. get y [0, 0]) (forward_fl float32 large_bias_layer unit_input)
     = Inr 33554432 \<and>
   weight large_bias_layer = weight plain_layer \<and>
   (1::real) \<noteq> 33554432 - get (bias large_bias_layer) [0, 0]"
proof -
  have x1: "shape unit_input = (if share_input plain_layer then []
              else nat (ensemble_size plain_layer) # []) @ [nat (in_features plain_layer)]"
    by (simp add: plain_layer_def unit_input_def)
  have x2: "shape unit_input = (if share_input large_bias_layer then []
              else nat (ensemble_size large_bias_layer) # [])
              @ [nat (in_features large_bias_layer)]"
    by (simp add: plain_layer_def large_bias_layer_def unit_input_def)
  from forward_fl_get[OF layer_ok_plain x1, of float32]
  obtain y where y: "forward_fl float32 plain_layer unit_input = Inr y"
    and gy: "\<And>e idx k. e < nat (ensemble_size plain_layer) \<Longrightarrow> valid_index [] idx \<Longrightarrow>
                k < nat (out_features plain_layer) \<Longrightarrow>
              get y (e # idx @ [k]) =
                float32 (contraction_fl float32 plain_layer unit_input
                      (if share_input plain_layer then idx else e # idx) k e
                      + get (bias plain_layer) [k, e])"
    by blast
  from forward_fl_get[OF layer_ok_large_bias x2, of float32]
  obtain y' where y': "forward_fl float32 large_bias_layer unit_input = Inr y'"
    and gy': "\<And>e idx k. e < nat (ensemble_size large_bias_layer) \<Longrightarrow> valid_index [] idx \<Longrightarrow>
                k < nat (out_features large_bias_layer) \<Longrightarrow>
              get y' (e # idx @ [k]) =
                float32 (contraction_fl float32 large_bias_layer unit_input
                      (if share_input large_bias_layer then idx else e # idx) k e
                      + get (bias large_bias_layer) [k, e])"
    by blast
  have s1: "share_input plain_layer" "share_input large_bias_layer"
    by (simp_all add: plain_layer_def large_bias_layer_def)
  have b1: "get (bias plain_layer) [0, 0] = 0"
    by (simp add: plain_layer_def get_def)
  have b2: "get (bias large_bias_layer) [0, 0] = 33554432"
    by (simp add: large_bias_layer_def get_def)
  have "get y [0, 0] = float32 (1 + 0)"
    using gy[of 0 "[]" 0] by (simp add: s1 contraction_unit b1) (simp add: plain_layer_def)
  then have v1: "get y [0, 0] = 1" by (simp add: float32_one)
  have "get y' [0, 0] = float32 (1 + 33554432)"
    using gy'[of 0 "[]" 0]
    by (simp add: s1 contraction_unit b2) (simp add: large_bias_layer_def plain_layer_def)
  then have v2: "get y' [0, 0] = 33554432" by (simp add: float32_large)
  have w: "weight large_bias_layer = weight plain_layer"
    by (simp add: large_bias_layer_def)
  show ?thesis using y y' v1 v2 w b2 by simp
qed

text \<open>C7: a layer constructed without bias holds an all-zero \<open>bias\<close> of shape
  [out_features, E]; no sequence of \<open>reset_parameters\<close> and \<open>forward\<close> calls changes it; its
  output is the contraction of the input with the weights alone, and the output of a layer with
  the same weights and a bias is that output plus the bias term, added in the arithmetic of the
  element type.\<close>

theorem bias_disabled_spec:
  "(\<forall>l0 g0. init mem junk cast a_in a_out a_e share False g = Inr (l0, g0) \<longrightarrow>
      \<not> add_bias l0 \<and>
      bias l0 = Tensor [nat (the_int a_out), nat (the_int a_e)]
                  (replicate (nat (the_int a_out) * nat (the_int a_e)) 0)) \<and>
   (\<not> add_bias l \<longrightarrow> bias (fst (run cast cs (l, r))) = bias l) \<and>
   (rounding cast \<and> layer_ok l \<and> layer_ok l' \<and> bias l = fill_value (bias l) 0 \<and>
    weight l' = weight l \<and>
    share_input l' = share_input l \<and> in_features l' = in_features l \<and>
    out_features l' = out_features l \<and> ensemble_size l' = ensemble_size l \<and>
    shape x = (if share_input l then lead else nat (ensemble_size l) # lead)
                @ [nat (in_features l)] \<longrightarrow>
    (\<exists>y y'. forward_fl cast l x = Inr y \<and> forward_fl cast l' x = Inr y' \<and>
       shape y = shape y' \<and>
       (\<forall>e idx k. e < nat (ensemble_size l) \<longrightarrow> valid_index lead idx \<longrightarrow>
                    k < nat (out_features l) \<longrightarrow>
          get y (e # idx @ [k]) =
            contraction_fl cast l x (if share_input l then idx else e # idx) k e \<and>
          get y' (e # idx @ [k]) = cast (get y (e # idx @ [k]) + get (bias l') [k, e]))))"
proof (intro conjI impI allI)
  fix l0 g0 assume "init mem junk cast a_in a_out a_e share False g = Inr (l0, g0)"
  from init_no_bias[OF this]
  show "\<not> add_bias l0"
    and "bias l0 = Tensor [nat (the_int a_out), nat (the_int a_e)]
                  (replicate (nat (the_int a_out) * nat (the_int a_e)) 0)"
    by simp_all
next
  assume "\<not> add_bias l"
  then show "bias (fst (run cast cs (l, r))) = bias l"
    using run_keeps_fixed_bias[of "(l, r)" cast cs] by simp
next
  assume a: "rounding cast \<and> layer_ok l \<and> layer_ok l' \<and> bias l = fill_value (bias l) 0 \<and>
    weight l' = weight l \<and>
    share_input l' = share_input l \<and> in_features l' = in_features l \<and>
    out_features l' = out_features l \<and> ensemble_size l' = ensemble_size l \<and>
    shape x = (if share_input l then lead else nat (ensemble_size l) # lead)
                @ [nat (in_features l)]"
  then have c: "rounding cast" and ok: "layer_ok l" and ok': "layer_ok l'"
    and z: "bias l = fill_value (bias l) 0"
    and x: "shape x = (if share_input l then lead else nat (ensemble_size l) # lead)
                @ [nat (in_features l)]"
    and x': "shape x = (if share_input l' then lead else nat (ensemble_size l') # lead)
                @ [nat (in_features l')]"
    by simp_all
  from forward_fl_get[OF ok x, of cast] obtain y where y: "forward_fl cast l x = Inr y"
    and sy: "shape y = nat (ensemble_size l) # lead @ [nat (out_features l)]"
    and gy: "\<And>e idx k. e < nat (ensemble_size l) \<Longrightarrow> valid_index lead idx \<Longrightarrow>
                        k < nat (out_features l) \<Longrightarrow>
              get y (e # idx @ [k]) =
                cast (contraction_fl cast l x (if share_input l then idx else e # idx) k e
                      + get (bias l) [k, e])"
    by blast
  from forward_fl_get[OF ok' x', of cast] obtain y' where y': "forward_fl cast l' x = Inr y'"
    and sy': "shape y' = nat (ensemble_size l') # lead @ [nat (out_features l')]"
    and gy': "\<And>e idx k. e < nat (ensemble_size l') \<Longrightarrow> valid_index lead idx \<Longrightarrow>
                        k < nat (out_features l') \<Longrightarrow>
              get y' (e # idx @ [k]) =
                cast (contraction_fl cast l' x (if share_input l' then idx else e # idx) k e
                      + get (bias l') [k, e])"
    by blast
  have sb: "shape (bias l) = [nat (out_features l), nat (ensemble_size l)]"
    using ok by (simp add: layer_ok_def)
  have zero: "get (bias l) [k, e] = 0"
    if "e < nat (ensemble_size l)" "k < nat (out_features l)" for e k
  proof -
    have "valid_index (shape (bias l)) [k, e]" using that by (simp add: sb)
    from get_fill_value[OF this, of 0] z show ?thesis by simp
  qed
  have same: "contraction_fl cast l' x pre k e = contraction_fl cast l x pre k e" for pre k e
    using a by (simp add: contraction_fl_def)
  have "get y (e # idx @ [k]) =
            contraction_fl cast l x (if share_input l then idx else e # idx) k e \<and>
        get y' (e # idx @ [k]) = cast (get y (e # idx @ [k]) + get (bias l') [k, e])"
    if t: "e < nat (ensemble_size l)" "valid_index lead idx" "k < nat (out_features l)"
    for e idx k
  proof -
    have "get y (e # idx @ [k]) =
            cast (contraction_fl cast l x (if share_input l then idx else e # idx) k e)"
      using gy[OF t] zero[OF t(1,3)] by simp
    then have 1: "get y (e # idx @ [k]) =
            contraction_fl cast l x (if share_input l then idx else e # idx) k e"
      unfolding contraction_fl_def by (simp only: dot_fl_range[OF c])
    have "get y' (e # idx @ [k]) =
            cast (contraction_fl cast l x (if share_input l then idx else e # idx) k e
                  + get (bias l') [k, e])"
      using gy'[of e idx k] t a by (simp add: same)
    then show ?thesis using 1 by simp
  qed
  then show "\<exists>y y'. forward_fl cast l x = Inr y \<and> forward_fl cast l' x = Inr y' \<and>
       shape y = shape y' \<and>
       (\<forall>e idx k. e < nat (ensemble_size l) \<longrightarrow> valid_index lead idx \<longrightarrow>
                    k < nat (out_features l) \<longrightarrow>
          get y (e # idx @ [k]) =
            contraction_fl cast l x (if share_input l then idx else e # idx) k e \<and>
          get y' (e # idx @ [k]) = cast (get y (e # idx @ [k]) + get (bias l') [k, e]))"
    using y y' sy sy' a by auto
qed

theorem bias_disabled_spec_witness:
  "\<exists>l0 g0 y y'. init 100 stale_memory float32 (IntArg 1) (IntArg 1) (IntArg 1) True False
                    three_quarter_rng = Inr (l0, g0) \<and>
      bias l0 = Tensor [1, 1] [0] \<and>
      bias (fst (run float32 [Reset, Forward doubling_input, Reset] (l0, g0)))
        = Tensor [1, 1] [0] \<and>
      forward_fl float32 l0 doubling_input = Inr y \<and>
      forward_fl float32 (biased_copy l0) doubling_input = Inr y' \<and>
      get y' [0, 0] = float32 (get y [0, 0] + 5)"
proof -
  from init_ok[of 1 1 1 100 stale_memory float32 True False three_quarter_rng]
  obtain l0 g0 where i: "init 100 stale_memory float32 (IntArg 1) (IntArg 1) (IntArg 1) True False
                           three_quarter_rng = Inr (l0, g0)"
    and ok: "layer_ok l0"
    and f: "in_features l0 = 1" "out_features l0 = 1" "ensemble_size l0 = 1" "share_input l0"
    by auto
  note t = bias_disabled_spec[of 100 stale_memory float32 "IntArg 1" "IntArg 1" "IntArg 1" True
      three_quarter_rng l0 "[Reset, Forward doubling_input, Reset]" g0 "biased_copy l0"
      doubling_input "[]"]
  have b0: "\<not> add_bias l0" "bias l0 = Tensor [1, 1] [0]" using t i by simp_all
  have b1: "bias (fst (run float32 [Reset, Forward doubling_input, Reset] (l0, g0)))
              = Tensor [1, 1] [0]"
    using t b0 by simp
  have ok': "layer_ok (biased_copy l0)"
    using ok f by (simp add: layer_ok_def biased_copy_def well_shaped_def)
  have "\<exists>y y'. forward_fl float32 l0 doubling_input = Inr y \<and>
           forward_fl float32 (biased_copy l0) doubling_input = Inr y' \<and> shape y = shape y' \<and>
           (\<forall>e idx k. e < nat (ensemble_size l0) \<longrightarrow> valid_index [] idx \<longrightarrow>
                    k < nat (out_features l0) \<longrightarrow>
              get y (e # idx @ [k]) =
                contraction_fl float32 l0 doubling_input
                  (if share_input l0 then idx else e # idx) k e \<and>
              get y' (e # idx @ [k]) =
                float32 (get y (e # idx @ [k]) + get (bias (biased_copy l0)) [k, e]))"
    using t ok ok' f b0 rounding_float32
    by (simp add: biased_copy_def fill_value_def doubling_input_def)
  then obtain y y' where y: "forward_fl float32 l0 doubling_input = Inr y"
    "forward_fl float32 (biased_copy l0) doubling_input = Inr y'"
    and g: "\<And>e idx k. e < nat (ensemble_size l0) \<Longrightarrow> valid_index [] idx \<Longrightarrow>
                    k < nat (out_features l0) \<Longrightarrow>
              get y' (e # idx @ [k]) =
                float32 (get y (e # idx @ [k]) + get (bias (biased_copy l0)) [k, e])"
    by blast
  have "get y' [0, 0] = float32 (get y [0, 0] + 5)"
    using g[of 0 "[]" 0] f by (simp add: biased_copy_def get_def)
  then show ?thesis using i b0 b1 y by blast
qed

lemma float32_std_nine_pos:
  "float32 (6004799503160661 / 18014398509481984) = 11184811 / 33554432"
  unfolding float32_def
  by (rule float_round_eval[where e = "- 2" and n = 11184811 and u = "1 / 2 ^ 25", THEN trans])
     (simp_all add: powr_minus)

lemma unit_draws_three_quarter: "unit_draws three_quarter_rng"
  by (simp add: unit_draws_def three_quarter_rng_def)

theorem reset_parameters_spec_witness:
  "(\<exists>l' g'. reset_parameters float32 nine_layer three_quarter_rng = Inr (l', g') \<and>
       - (11184811 / 33554432) \<le> get (weight l') [0, 0, 0] \<and>
       get (weight l') [0, 0, 0] \<le> 11184811 / 33554432 \<and>
       shape (weight l') = [9, 1, 1] \<and> in_features l' = 9) \<and>
   (\<exists>l0 g0. init 100 stale_memory float32 (IntArg 9) (IntArg 1) (IntArg 1) True True
               three_quarter_rng = Inr (l0, g0) \<and>
       - (11184811 / 33554432) \<le> get (bias l0) [0, 0] \<and>
       get (bias l0) [0, 0] \<le> 11184811 / 33554432)"
proof -
  note t = reset_parameters_spec[OF unit_draws_three_quarter rounding_float32,
      of nine_layer 100 stale_memory "IntArg 9" "IntArg 1" "IntArg 1" True True]
  have lo: "float32 (- std_of (in_features nine_layer)) = - (11184811 / 33554432)"
    by (simp add: nine_layer_def std_of_nine float32_std_nine)
  have hi: "float32 (std_of (in_features nine_layer)) = 11184811 / 33554432"
    by (simp add: nine_layer_def std_of_nine float32_std_nine_pos)
  have pos: "0 < in_features nine_layer" by (simp add: nine_layer_def)
  from t pos obtain l' g' where
    r: "reset_parameters float32 nine_layer three_quarter_rng = Inr (l', g')"
    and bw: "\<forall>v \<in> set (elems (weight l')).
               - (11184811 / 33554432) \<le> v \<and> v \<le> 11184811 / 33554432"
    and fr: "l' = nine_layer\<lparr>weight := weight l', bias := bias l'\<rparr>"
    and sw: "shape (weight l') = shape (weight nine_layer)"
    and ww: "well_shaped (weight l')"
    unfolding lo hi by blast
  have sh: "shape (weight l') = [9, 1, 1]" using sw by (simp add: nine_layer_def)
  have "length (elems (weight l')) = 9" using ww sh by (simp add: well_shaped_def)
  then have "elems (weight l') ! 0 \<in> set (elems (weight l'))" by simp
  then have g1: "- (11184811 / 33554432) \<le> get (weight l') [0, 0, 0] \<and>
                 get (weight l') [0, 0, 0] \<le> 11184811 / 33554432"
    using bw by (simp add: get_def sh)
  have inf: "in_features l' = 9"
    by (subst fr) (simp add: nine_layer_def)
  from init_ok[of 9 1 1 100 stale_memory float32 True True three_quarter_rng]
  obtain l0 g0 where i: "init 100 stale_memory float32 (IntArg 9) (IntArg 1) (IntArg 1) True True
                           three_quarter_rng = Inr (l0, g0)"
    and ok: "layer_ok l0" and sz: "out_features l0 = 1" "ensemble_size l0 = 1"
    by auto
  have lo': "float32 (- std_of (the_int (IntArg 9))) = - (11184811 / 33554432)"
    by (simp add: std_of_nine float32_std_nine)
  have hi': "float32 (std_of (the_int (IntArg 9))) = 11184811 / 33554432"
    by (simp add: std_of_nine float32_std_nine_pos)
  have bb: "\<forall>v \<in> set (elems (bias l0)).
              - (11184811 / 33554432) \<le> v \<and> v \<le> 11184811 / 33554432"
    using t i unfolding lo' hi' by simp
  have sb: "shape (bias l0) = [1, 1]" using ok sz by (simp add: layer_ok_def)
  have "length (elems (bias l0)) = 1" using ok sb by (simp add: layer_ok_def well_shaped_def)
  then have "elems (bias l0) ! 0 \<in> set (elems (bias l0))" by simp
  then have g2: "- (11184811 / 33554432) \<le> get (bias l0) [0, 0] \<and>
                 get (bias l0) [0, 0] \<le> 11184811 / 33554432"
    using bb by (simp add: get_def sb)
  show ?thesis using r g1 sh inf i g2 by blast
qed

lemma float64_one: "float64 1 = 1"
  unfolding float64_def
  by (rule float_round_eval[where e = 0 and n = "2 ^ 52" and u = "1 / 2 ^ 52", THEN trans])
     (simp_all add: powr_minus)

lemma float32_minus_one: "float32 (- 1) = - 1"
  unfolding float32_def
  by (rule float_round_eval[where e = 0 and n = "- (2 ^ 23)" and u = "1 / 2 ^ 23", THEN trans])
     (simp_all add: powr_minus)

lemma float32_half: "float32 (1 / 2) = 1 / 2"
  unfolding float32_def
  by (rule float_round_eval[where e = "- 1" and n = "2 ^ 23" and u = "1 / 2 ^ 24", THEN trans])
     (simp_all add: powr_minus)

lemma std_of_one: "std_of 1 = 1"
  by (simp add: std_of_def float64_one)

text \<open>With gain 2 the dispatcher leaves the weight of a 1 x 1 x 1 layer at 2, outside
  [-1, 1], and the bias at 0, where \<open>reset_parameters\<close> on the same generator gives 1/2 for
  both.\<close>

theorem weight_init_not_uniform:
  "initialised (weight_init orthogonal_1x1 (EnsembleModule unit_layer) 2 three_quarter_rng) =
     Some (unit_layer\<lparr>weight := Tensor [1, 1, 1] [2], bias := Tensor [1, 1] [0]\<rparr>) \<and>
   map_sum id fst (reset_parameters float32 unit_layer three_quarter_rng) =
     Inr (unit_layer\<lparr>weight := Tensor [1, 1, 1] [1 / 2], bias := Tensor [1, 1] [1 / 2]\<rparr>)"
proof -
  have a: "initialised (weight_init orthogonal_1x1 (EnsembleModule unit_layer) 2
             three_quarter_rng) =
     Some (unit_layer\<lparr>weight := Tensor [1, 1, 1] [2], bias := Tensor [1, 1] [0]\<rparr>)"
    by (simp add: initialised_def weight_init_def orthogonal_1x1_def unit_layer_def
      three_quarter_rng_def select_last_def set_last_def tabulate_def fill_value_def get_def
      Let_def)
  have pos: "0 < in_features unit_layer" by (simp add: unit_layer_def)
  have s: "std_of (in_features unit_layer) = 1" by (simp add: unit_layer_def std_of_one)
  have b: "map_sum id fst (reset_parameters float32 unit_layer three_quarter_rng) =
     Inr (unit_layer\<lparr>weight := Tensor [1, 1, 1] [1 / 2], bias := Tensor [1, 1] [1 / 2]\<rparr>)"
    unfolding reset_parameters_ok[OF pos] s
    by (simp add: Let_def uniform_fill_def unit_layer_def three_quarter_rng_def
        float32_one float32_minus_one float32_half)
  show ?thesis using a b by simp
qed

text \<open>With the conversion that changes nothing, the forward pass in the arithmetic of the
  element type is the forward pass over the reals.\<close>

lemma foldl_plus_sum_list:
  "foldl (\<lambda>acc j. acc + f j) a xs = a + (\<Sum>j\<leftarrow>xs. (f j :: real))"
  by (induction xs arbitrary: a) simp_all

lemma dot_fl_exact: "dot_fl (\<lambda>v. v) f n = (\<Sum>j\<leftarrow>[0..<n]. f j)"
  by (simp add: dot_fl_def foldl_plus_sum_list)

lemma einsum_dj_jkb_fl_exact: "einsum_dj_jkb_fl (\<lambda>v. v) x w = einsum_dj_jkb x w"
  unfolding einsum_dj_jkb_fl_def einsum_dj_jkb_def dot_fl_exact ..

lemma einsum_bdj_jkb_fl_exact: "einsum_bdj_jkb_fl (\<lambda>v. v) x w = einsum_bdj_jkb x w"
  unfolding einsum_bdj_jkb_fl_def einsum_bdj_jkb_def dot_fl_exact ..

lemma tadd_fl_exact: "tadd_fl (\<lambda>v. v) a b = tadd a b"
  unfolding tadd_fl_def tadd_def ..

lemma forward_fl_exact: "forward_fl (\<lambda>v. v) l x = forward l x"
  unfolding forward_fl_def forward_def einsum_dj_jkb_fl_exact einsum_bdj_jkb_fl_exact
    tadd_fl_exact ..

end
